theory Spec2Isabelle
  imports Complex_Main "HOL-Library.AList" "HOL-Library.Multiset"
begin

section \<open>The flow rule manager of sentinel-golang (core/flow/rule\_manager.go)\<close>

text \<open>
  The rule manager keeps two package variables: \<open>tcGenFuncMap\<close>, the registry of
  controller generators keyed by (TokenCalculateStrategy, ControlBehavior), and
  \<open>tcMap\<close>, the effective map from a resource name to its traffic shaping
  controllers. Rules and controllers are handled through pointers, so the embedding has an
  explicit memory: a pointer is an address or nil, a panic is an error value, and every
  function that touches memory takes the memory and returns it.

  Only the sequential behaviour is modelled: the read/write lock \<open>tcMux\<close> and
  the logging calls have no counterpart here.
\<close>

subsection \<open>Rules, controllers and memory\<close>

type_synonym addr = nat

type_synonym error = string

text \<open>
  Modelled from the spec: the declaration of \<open>Rule\<close> is not part of
  rule\_manager.go. The fields are the ones the spec's data model lists and the source
  reads. The four enumeration types are signed integers (the source compares them with
  0); \<open>Count\<close> is a float64, modelled by a real number, so NaN and the
  infinities are outside the model.
\<close>

record Rule =
  Resource :: string
  MetricType :: int
  TokenCalculateStrategy :: int
  ControlBehavior :: int
  Count :: real
  RelationStrategy :: int
  RefResource :: string
  MaxQueueingTimeMs :: int
  WarmUpPeriodSec :: int
  WarmUpColdFactor :: int

text \<open>
  Modelled from the spec: the enumeration constants are declared outside
  rule\_manager.go. They are numbered from 0 in the order in which the spec lists
  them, as a Go \<open>iota\<close> block numbers them.
\<close>

definition Direct :: int where
  "Direct = 0"

definition WarmUp :: int where
  "WarmUp = 1"

definition Reject :: int where
  "Reject = 0"

definition Throttling :: int where
  "Throttling = 1"

definition CurrentResource :: int where
  "CurrentResource = 0"

definition AssociatedResource :: int where
  "AssociatedResource = 1"

text \<open>
  Modelled from the spec: \<open>TrafficShapingController\<close> is declared outside
  rule\_manager.go. The manager reads one field of it, the pointer \<open>rule\<close>;
  the calculator and the checker are opaque to it and are left out.
\<close>

record TrafficShapingController =
  rule :: "addr option"

text \<open>
  The memory holds rule objects and controller objects. Both stores are total; the
  counters \<open>rule_next\<close> and \<open>tsc_next\<close> separate the cells that
  have been allocated (below the counter) from the free ones.
\<close>

record heap =
  rule_mem :: "addr \<Rightarrow> Rule"
  rule_next :: addr
  tsc_mem :: "addr \<Rightarrow> TrafficShapingController"
  tsc_next :: addr

text \<open>
  A Go slice whose being nil matters is a list option: \<open>None\<close> is the nil
  slice, \<open>Some []\<close> an empty slice that is not nil.
\<close>

type_synonym 'a slice = "'a list option"

definition elems :: "'a slice \<Rightarrow> 'a list" where
  "elems s = (case s of None \<Rightarrow> [] | Some xs \<Rightarrow> xs)"

definition go_append :: "'a slice \<Rightarrow> 'a \<Rightarrow> 'a slice" where
  "go_append s x = Some (elems s @ [x])"

subsection \<open>Generators and the manager's state\<close>

text \<open>
  A \<open>TrafficControllerGenFunc\<close> is a Go function value
  \<open>func(*Rule) *TrafficShapingController\<close>. It may read and write memory; it
  either panics or returns a controller pointer, which may be nil.
\<close>

datatype gen_outcome = GenPanic error heap | GenReturn "addr option" heap

type_synonym TrafficControllerGenFunc = "heap \<Rightarrow> addr \<Rightarrow> gen_outcome"

type_synonym trafficControllerGenKey = "int \<times> int"

text \<open>
  \<open>TrafficControllerMap\<close> is \<open>map[string][]*TrafficShapingController\<close>.
  It is an association list with distinct keys; the order of the list stands for the
  order in which a \<open>range\<close> loop happens to visit the entries, which Go leaves
  open. The controller pointers stored in it are never nil (buildFlowMap stores a
  controller only after its nil check), so an entry is a list of addresses.
\<close>

type_synonym TrafficControllerMap = "(string \<times> addr list) list"

record state =
  mem :: heap
  tcGenFuncMap :: "trafficControllerGenKey \<Rightarrow> TrafficControllerGenFunc option"
  tcMap :: TrafficControllerMap

text \<open>
  Modelled from the spec: \<open>NewTrafficShapingController\<close> is defined outside
  rule\_manager.go. It builds a new controller object that keeps the rule pointer it is
  given (the test getRules finds the very pointers it loaded).
\<close>

definition NewTrafficShapingController :: "heap \<Rightarrow> addr \<Rightarrow> addr \<times> heap" where
  "NewTrafficShapingController h r =
     (tsc_next h,
      h\<lparr>tsc_mem := (tsc_mem h)(tsc_next h := \<lparr>rule = Some r\<rparr>),
        tsc_next := Suc (tsc_next h)\<rparr>)"

text \<open>A built-in generator: the closure builds a controller for the rule it is given.\<close>

definition builtin_generator :: TrafficControllerGenFunc where
  "builtin_generator h r =
     (case NewTrafficShapingController h r of (tsc, h') \<Rightarrow> GenReturn (Some tsc) h')"

text \<open>
  The registry as \<open>init()\<close> fills it: the four built-in pairs. The four closures
  differ in the calculator and the checker they pass to \<open>NewTrafficShapingController\<close>,
  which are opaque here, so one generator stands for all four.
\<close>

definition init_tcGenFuncMap :: "trafficControllerGenKey \<Rightarrow> TrafficControllerGenFunc option" where
  "init_tcGenFuncMap =
     (((Map.empty((Direct, Reject) \<mapsto> builtin_generator))
         ((Direct, Throttling) \<mapsto> builtin_generator))
         ((WarmUp, Reject) \<mapsto> builtin_generator))
         ((WarmUp, Throttling) \<mapsto> builtin_generator)"

subsection \<open>IsValidRule\<close>

definition IsValidRule :: "Rule option \<Rightarrow> error option" where
  "IsValidRule rule_ptr =
     (case rule_ptr of
        None \<Rightarrow> Some ''nil Rule''
      | Some r \<Rightarrow>
          if Resource r = [] then Some ''empty resource name''
          else if Count r < 0 then Some ''negative threshold''
          else if MetricType r < 0 then Some ''invalid metric type''
          else if RelationStrategy r < 0 then Some ''invalid relation strategy''
          else if TokenCalculateStrategy r < 0 \<or> ControlBehavior r < 0
            then Some ''invalid control strategy''
          else if RelationStrategy r = AssociatedResource \<and> RefResource r = []
            then Some ''Bad flow rule: invalid control behavior''
          else if TokenCalculateStrategy r = WarmUp then
            (if WarmUpPeriodSec r \<le> 0 then Some ''invalid warmUpPeriodSec''
             else if WarmUpColdFactor r = 1 then Some ''WarmUpColdFactor must be great than 1''
             else None)
          else None)"

subsection \<open>The generator registry\<close>

definition protected_error :: error where
  "protected_error = ''not allowed to replace the generator for default control strategy''"

definition SetTrafficShapingGenerator ::
  "state \<Rightarrow> int \<Rightarrow> int \<Rightarrow> TrafficControllerGenFunc option \<Rightarrow> error option \<times> state" where
  "SetTrafficShapingGenerator st tokenCalculateStrategy controlBehavior generator =
     (case generator of
        None \<Rightarrow> (Some ''nil generator'', st)
      | Some g \<Rightarrow>
          if tokenCalculateStrategy \<ge> Direct \<and> tokenCalculateStrategy \<le> WarmUp
            then (Some protected_error, st)
          else if controlBehavior \<ge> Reject \<and> controlBehavior \<le> Throttling
            then (Some protected_error, st)
          else (None,
                st\<lparr>tcGenFuncMap :=
                     (tcGenFuncMap st)((tokenCalculateStrategy, controlBehavior) \<mapsto> g)\<rparr>))"

definition RemoveTrafficShapingGenerator ::
  "state \<Rightarrow> int \<Rightarrow> int \<Rightarrow> error option \<times> state" where
  "RemoveTrafficShapingGenerator st tokenCalculateStrategy controlBehavior =
     (if tokenCalculateStrategy \<ge> Direct \<and> tokenCalculateStrategy \<le> WarmUp
        then (Some protected_error, st)
      else if controlBehavior \<ge> Reject \<and> controlBehavior \<le> Throttling
        then (Some protected_error, st)
      else (None,
            st\<lparr>tcGenFuncMap :=
                 (tcGenFuncMap st)((tokenCalculateStrategy, controlBehavior) := None)\<rparr>))"

subsection \<open>Rule equivalence\<close>

text \<open>
  Modelled from the spec: \<open>equalsTo\<close> is a method of \<open>Rule\<close>
  defined outside rule\_manager.go. The spec calls two rules equivalent iff all their
  semantically meaningful fields are equal: resource, metric type, relation strategy and
  reference resource, strategy and behaviour, threshold, warm-up and queueing
  parameters. The spec is silent about nil pointers; here comparing through a nil
  pointer is a nil dereference, which panics.
\<close>

definition rule_equiv :: "Rule \<Rightarrow> Rule \<Rightarrow> bool" where
  "rule_equiv f newRule \<longleftrightarrow>
     Resource f = Resource newRule \<and>
     MetricType f = MetricType newRule \<and>
     RelationStrategy f = RelationStrategy newRule \<and>
     RefResource f = RefResource newRule \<and>
     TokenCalculateStrategy f = TokenCalculateStrategy newRule \<and>
     ControlBehavior f = ControlBehavior newRule \<and>
     Count f = Count newRule \<and>
     WarmUpPeriodSec f = WarmUpPeriodSec newRule \<and>
     WarmUpColdFactor f = WarmUpColdFactor newRule \<and>
     MaxQueueingTimeMs f = MaxQueueingTimeMs newRule"

definition nil_dereference :: error where
  "nil_dereference = ''runtime error: invalid memory address or nil pointer dereference''"

definition equalsTo :: "heap \<Rightarrow> addr option \<Rightarrow> addr option \<Rightarrow> error + bool" where
  "equalsTo h f newRule =
     (case f of
        None \<Rightarrow> Inl nil_dereference
      | Some a \<Rightarrow>
          (case newRule of
             None \<Rightarrow> Inl nil_dereference
           | Some b \<Rightarrow> Inr (rule_equiv (rule_mem h a) (rule_mem h b))))"

subsection \<open>buildFlowMap\<close>

text \<open>
  The deduplication loop of buildFlowMap: it answers whether some controller already
  built for the resource carries a rule equivalent to the rule at \<open>r\<close>.
\<close>

fun is_duplicate :: "heap \<Rightarrow> addr \<Rightarrow> addr list \<Rightarrow> error + bool" where
  "is_duplicate h r [] = Inr False"
| "is_duplicate h r (tc # tcs) =
     (case equalsTo h (Some r) (rule (tsc_mem h tc)) of
        Inl e \<Rightarrow> Inl e
      | Inr found \<Rightarrow> if found then Inr True else is_duplicate h r tcs)"

text \<open>
  One iteration of the loop over the input rules. The loop state is the candidate map,
  the slice of failed rules and the memory; a panic ends the loop with the memory as the
  panic found it.
\<close>

type_synonym build_state = "TrafficControllerMap \<times> addr option slice \<times> heap"

fun buildFlowMap_step ::
  "(trafficControllerGenKey \<Rightarrow> TrafficControllerGenFunc option) \<Rightarrow> build_state \<Rightarrow> addr option
     \<Rightarrow> (error \<times> heap) + build_state" where
  "buildFlowMap_step reg (m, failedRules, h) None = Inr (m, failedRules, h)"
| "buildFlowMap_step reg (m, failedRules, h) (Some r) =
     (case IsValidRule (Some (rule_mem h r)) of
        Some err \<Rightarrow> Inr (m, go_append failedRules (Some r), h)
      | None \<Rightarrow>
          (case (case map_of m (Resource (rule_mem h r)) of
                   None \<Rightarrow> Inr False
                 | Some rulesOfRes \<Rightarrow> is_duplicate h r rulesOfRes) of
             Inl e \<Rightarrow> Inl (e, h)
           | Inr dup \<Rightarrow>
               if dup then Inr (m, failedRules, h)
               else
                 (case reg (TokenCalculateStrategy (rule_mem h r), ControlBehavior (rule_mem h r)) of
                    None \<Rightarrow> Inr (m, go_append failedRules (Some r), h)
                  | Some generator \<Rightarrow>
                      (case generator h r of
                         GenPanic e h' \<Rightarrow> Inl (e, h')
                       | GenReturn tsc_ptr h' \<Rightarrow>
                           (case tsc_ptr of
                              None \<Rightarrow> Inr (m, go_append failedRules (Some r), h')
                            | Some tsc \<Rightarrow>
                                Inr (AList.update (Resource (rule_mem h' r))
                                       (case map_of m (Resource (rule_mem h r)) of
                                          None \<Rightarrow> [tsc]
                                        | Some rulesOfRes \<Rightarrow> rulesOfRes @ [tsc]) m,
                                     failedRules, h'))))))"

fun buildFlowMap_loop ::
  "(trafficControllerGenKey \<Rightarrow> TrafficControllerGenFunc option) \<Rightarrow> addr option list \<Rightarrow> build_state
     \<Rightarrow> (error \<times> heap) + build_state" where
  "buildFlowMap_loop reg [] s = Inr s"
| "buildFlowMap_loop reg (r # rules) s =
     (case buildFlowMap_step reg s r of
        Inl p \<Rightarrow> Inl p
      | Inr s' \<Rightarrow> buildFlowMap_loop reg rules s')"

definition buildFlowMap ::
  "(trafficControllerGenKey \<Rightarrow> TrafficControllerGenFunc option) \<Rightarrow> heap \<Rightarrow> addr option slice
     \<Rightarrow> (error \<times> heap) + build_state" where
  "buildFlowMap reg h rules =
     (if length (elems rules) = 0 then Inr ([], None, h)
      else buildFlowMap_loop reg (elems rules) ([], None, h))"

subsection \<open>onRuleUpdate and LoadRules\<close>

text \<open>
  The inner loops of the change detection: \<open>has_match\<close> looks for a candidate
  controller whose rule is equivalent to the rule of the current controller
  \<open>tc\<close>; \<open>count_matches\<close> is \<open>eqCount\<close>.
\<close>

fun has_match :: "heap \<Rightarrow> addr \<Rightarrow> addr list \<Rightarrow> error + bool" where
  "has_match h tc [] = Inr False"
| "has_match h tc (mTc # mTcs) =
     (case equalsTo h (rule (tsc_mem h tc)) (rule (tsc_mem h mTc)) of
        Inl e \<Rightarrow> Inl e
      | Inr eq \<Rightarrow> if eq then Inr True else has_match h tc mTcs)"

fun count_matches :: "heap \<Rightarrow> addr list \<Rightarrow> addr list \<Rightarrow> error + nat" where
  "count_matches h [] mTcs = Inr 0"
| "count_matches h (tc # tcs) mTcs =
     (case has_match h tc mTcs of
        Inl e \<Rightarrow> Inl e
      | Inr found \<Rightarrow>
          (case count_matches h tcs mTcs of
             Inl e \<Rightarrow> Inl e
           | Inr eqCount \<Rightarrow> Inr (if found then Suc eqCount else eqCount)))"

text \<open>
  The loop over the entries of the current map; its result is \<open>ret\<close>. The
  first argument is the part of the current map still to be visited.
\<close>

fun diff_loop :: "heap \<Rightarrow> TrafficControllerMap \<Rightarrow> TrafficControllerMap \<Rightarrow> error + bool" where
  "diff_loop h [] m = Inr False"
| "diff_loop h ((res, tcs) # rest) m =
     (case map_of m res of
        None \<Rightarrow> Inr True
      | Some mTcs \<Rightarrow>
          if length tcs \<noteq> length mTcs then Inr True
          else
            (case count_matches h tcs mTcs of
               Inl e \<Rightarrow> Inl e
             | Inr eqCount \<Rightarrow>
                 if eqCount < length tcs then Inr True else diff_loop h rest m))"

definition rules_changed :: "heap \<Rightarrow> TrafficControllerMap \<Rightarrow> TrafficControllerMap \<Rightarrow> error + bool" where
  "rules_changed h cur m =
     (if length cur \<noteq> length m then Inr True else diff_loop h cur m)"

text \<open>
  onRuleUpdate returns \<open>(ret, err, failedRules)\<close> and the new state. A panic
  in buildFlowMap or in the change detection is recovered: \<open>err\<close> is set,
  \<open>failedRules\<close> is the input slice, \<open>ret\<close> still has its zero value
  (it is assigned only right before the loop is left), and the assignment
  \<open>tcMap = m\<close>, the last statement, has not run.
\<close>

definition onRuleUpdate ::
  "state \<Rightarrow> addr option slice \<Rightarrow> (bool \<times> error option \<times> addr option slice) \<times> state" where
  "onRuleUpdate st rules =
     (case buildFlowMap (tcGenFuncMap st) (mem st) rules of
        Inl (e, h') \<Rightarrow> ((False, Some e, rules), st\<lparr>mem := h'\<rparr>)
      | Inr (m, failedRules, h') \<Rightarrow>
          (case rules_changed h' (tcMap st) m of
             Inl e \<Rightarrow> ((False, Some e, rules), st\<lparr>mem := h'\<rparr>)
           | Inr ret \<Rightarrow> ((ret, None, failedRules), st\<lparr>mem := h', tcMap := m\<rparr>)))"

definition LoadRules ::
  "state \<Rightarrow> addr option slice \<Rightarrow> (bool \<times> error option \<times> addr option slice) \<times> state" where
  "LoadRules st rules = onRuleUpdate st rules"

definition ClearRules :: "state \<Rightarrow> error option \<times> state" where
  "ClearRules st = (case LoadRules st None of ((ret, err, failedRules), st') \<Rightarrow> (err, st'))"

subsection \<open>The query functions\<close>

text \<open>
  \<open>rulesFrom\<close> collects the rule pointers of all controllers, leaving out a
  controller whose \<open>Rule()\<close> is nil. The result is a slice of non-nil pointers.
\<close>

definition rules_of_tcs :: "heap \<Rightarrow> addr list \<Rightarrow> addr list" where
  "rules_of_tcs h rs = concat (map (\<lambda>tc. case rule (tsc_mem h tc) of None \<Rightarrow> [] | Some p \<Rightarrow> [p]) rs)"

definition rulesFrom :: "heap \<Rightarrow> TrafficControllerMap \<Rightarrow> addr list" where
  "rulesFrom h m = concat (map (\<lambda>(res, rs). rules_of_tcs h rs) m)"

definition getRules :: "state \<Rightarrow> addr list" where
  "getRules st = rulesFrom (mem st) (tcMap st)"

definition getRulesOfResource :: "state \<Rightarrow> string \<Rightarrow> addr option slice" where
  "getRulesOfResource st res =
     (case map_of (tcMap st) res of
        None \<Rightarrow> None
      | Some resTcs \<Rightarrow> Some (map (\<lambda>tc. rule (tsc_mem (mem st) tc)) resTcs))"

text \<open>
  The loop \<open>ret = append(ret, *rule)\<close> of GetRules and GetRulesOfResource. The
  slice \<open>ret\<close> is made anew, so its elements are new rule cells; \<open>*rule\<close>
  copies the fields, and panics on a nil pointer. The result lists the addresses of the
  elements of \<open>ret\<close>.
\<close>

fun copy_rules :: "heap \<Rightarrow> addr option list \<Rightarrow> error + (addr list \<times> heap)" where
  "copy_rules h [] = Inr ([], h)"
| "copy_rules h (None # ps) = Inl nil_dereference"
| "copy_rules h (Some p # ps) =
     (case copy_rules
             (h\<lparr>rule_mem := (rule_mem h)(rule_next h := rule_mem h p),
                rule_next := Suc (rule_next h)\<rparr>) ps of
        Inl e \<Rightarrow> Inl e
      | Inr (cells, h') \<Rightarrow> Inr (rule_next h # cells, h'))"

definition GetRules :: "state \<Rightarrow> error + (addr slice \<times> state)" where
  "GetRules st =
     (case copy_rules (mem st) (map Some (getRules st)) of
        Inl e \<Rightarrow> Inl e
      | Inr (cells, h') \<Rightarrow> Inr (Some cells, st\<lparr>mem := h'\<rparr>))"

definition GetRulesOfResource :: "state \<Rightarrow> string \<Rightarrow> error + (addr slice \<times> state)" where
  "GetRulesOfResource st res =
     (case copy_rules (mem st) (elems (getRulesOfResource st res)) of
        Inl e \<Rightarrow> Inl e
      | Inr (cells, h') \<Rightarrow> Inr (Some cells, st\<lparr>mem := h'\<rparr>))"

text \<open>The rule values a slice of rule cells holds.\<close>

definition rule_values :: "heap \<Rightarrow> addr slice \<Rightarrow> Rule list" where
  "rule_values h s = map (rule_mem h) (elems s)"

subsection \<open>Observations and well-formed memory\<close>

text \<open>
  What a caller sees of GetRules and GetRulesOfResource is the rule values held by the
  slice they return. GetRules visits the effective map in an order Go leaves open, so its
  result is determined up to order only and is read as a multiset; the result of
  GetRulesOfResource follows the order of the resource's controller list.
\<close>

definition GetRules_result :: "state \<Rightarrow> error + Rule multiset" where
  "GetRules_result st =
     (case GetRules st of Inl e \<Rightarrow> Inl e | Inr (s, st') \<Rightarrow> Inr (mset (rule_values (mem st') s)))"

definition GetRulesOfResource_result :: "state \<Rightarrow> string \<Rightarrow> error + Rule list" where
  "GetRulesOfResource_result st res =
     (case GetRulesOfResource st res of Inl e \<Rightarrow> Inl e | Inr (s, st') \<Rightarrow> Inr (rule_values (mem st') s))"

text \<open>Reading the rules behind a list of pointers; a nil pointer panics.\<close>

fun deref_all :: "heap \<Rightarrow> addr option list \<Rightarrow> error + Rule list" where
  "deref_all h [] = Inr []"
| "deref_all h (None # ps) = Inl nil_dereference"
| "deref_all h (Some p # ps) =
     (case deref_all h ps of Inl e \<Rightarrow> Inl e | Inr vs \<Rightarrow> Inr (rule_mem h p # vs))"

text \<open>
  All controllers of a map; a map is allocated in a memory when its controllers and the
  rules they point to are allocated objects (Go has no pointer to a free cell).
\<close>

definition controllers :: "TrafficControllerMap \<Rightarrow> addr list" where
  "controllers m = concat (map snd m)"

definition map_allocated :: "heap \<Rightarrow> TrafficControllerMap \<Rightarrow> bool" where
  "map_allocated h m \<longleftrightarrow>
     (\<forall>tc \<in> set (controllers m). tc < tsc_next h \<and>
        (\<forall>p. rule (tsc_mem h tc) = Some p \<longrightarrow> p < rule_next h))"

text \<open>
  \<open>heap_extends h h'\<close>: every object allocated in \<open>h\<close> is unchanged in
  \<open>h'\<close>, which may hold more objects. A registry is framed when its generators
  only extend the memory: they may allocate, and leave the allocated rules and
  controllers as they are.
\<close>

definition heap_extends :: "heap \<Rightarrow> heap \<Rightarrow> bool" where
  "heap_extends h h' \<longleftrightarrow>
     rule_next h \<le> rule_next h' \<and> tsc_next h \<le> tsc_next h' \<and>
     (\<forall>a < rule_next h. rule_mem h' a = rule_mem h a) \<and>
     (\<forall>a < tsc_next h. tsc_mem h' a = tsc_mem h a)"

fun outcome_heap :: "gen_outcome \<Rightarrow> heap" where
  "outcome_heap (GenPanic e h) = h"
| "outcome_heap (GenReturn tsc h) = h"

definition registry_frame :: "(trafficControllerGenKey \<Rightarrow> TrafficControllerGenFunc option) \<Rightarrow> bool" where
  "registry_frame reg \<longleftrightarrow> (\<forall>k g h r. reg k = Some g \<longrightarrow> heap_extends h (outcome_heap (g h r)))"

definition result_heap :: "(error \<times> heap) + build_state \<Rightarrow> heap" where
  "result_heap x = (case x of Inl (e, h) \<Rightarrow> h | Inr (m, failedRules, h) \<Rightarrow> h)"

subsection \<open>Rule values of controller lists\<close>

text \<open>
  The rule values carried by a list of controllers, and the list of controllers a map
  holds for a resource (empty when the resource is absent). A list has its rules
  present when no controller in it has a nil rule; it has no equivalent rules when
  \<open>equalsTo\<close> answers false for every two controllers at different positions.
\<close>

definition tc_values :: "heap \<Rightarrow> addr list \<Rightarrow> Rule list" where
  "tc_values h tcs = map (rule_mem h) (rules_of_tcs h tcs)"

definition tcs_of :: "TrafficControllerMap \<Rightarrow> string \<Rightarrow> addr list" where
  "tcs_of m res = (case map_of m res of None \<Rightarrow> [] | Some tcs \<Rightarrow> tcs)"

definition rules_present :: "heap \<Rightarrow> addr list \<Rightarrow> bool" where
  "rules_present h tcs \<longleftrightarrow> (\<forall>tc \<in> set tcs. rule (tsc_mem h tc) \<noteq> None)"

definition no_equivalent_rules :: "heap \<Rightarrow> addr list \<Rightarrow> bool" where
  "no_equivalent_rules h tcs \<longleftrightarrow>
     (\<forall>i j. i < j \<and> j < length tcs \<longrightarrow>
        equalsTo h (rule (tsc_mem h (tcs ! i))) (rule (tsc_mem h (tcs ! j))) = Inr False)"

text \<open>The invariant of a controller map: distinct keys, and in every list the rules
  are present and pairwise not equivalent.\<close>

definition deduplicated :: "heap \<Rightarrow> TrafficControllerMap \<Rightarrow> bool" where
  "deduplicated h m \<longleftrightarrow>
     distinct (map fst m) \<and>
     (\<forall>tcs \<in> snd ` set m. rules_present h tcs \<and> no_equivalent_rules h tcs)"

text \<open>
  What the loop of the change detection tests for one entry of the current map: the
  resource is missing from the candidate map, or the lists differ in length, or some
  current rule has no equal among the candidate rules.
\<close>

definition entry_differs :: "heap \<Rightarrow> TrafficControllerMap \<Rightarrow> string \<times> addr list \<Rightarrow> bool" where
  "entry_differs h m e =
     (case map_of m (fst e) of
        None \<Rightarrow> True
      | Some mTcs \<Rightarrow> length (snd e) \<noteq> length mTcs \<or>
                    \<not> set (tc_values h (snd e)) \<subseteq> set (tc_values h mTcs))"

subsection \<open>Generators that act as factories\<close>

text \<open>
  The spec's collaborator interface asks of a generator that it be a factory: given a
  rule it yields a controller whose \<open>Rule()\<close> is that rule. Such a generator is
  described by what it does for a rule with given fields: panic, return nil, or build a
  new controller for the rule (as the built-in generators do). It neither writes to rules
  nor to controllers that exist already.
\<close>

datatype gen_kind = KPanic error | KNil | KNew

definition constructor_like :: "(Rule \<Rightarrow> gen_kind) \<Rightarrow> TrafficControllerGenFunc" where
  "constructor_like k h r =
     (case k (rule_mem h r) of
        KPanic e \<Rightarrow> GenPanic e h
      | KNil \<Rightarrow> GenReturn None h
      | KNew \<Rightarrow> builtin_generator h r)"

text \<open>
  A registry conforms to a table \<open>K\<close> of such descriptions when it has a generator
  exactly for the pairs of \<open>K\<close>, each acting as \<open>K\<close> describes.
\<close>

definition registry_conforms ::
  "(trafficControllerGenKey \<Rightarrow> TrafficControllerGenFunc option)
     \<Rightarrow> (trafficControllerGenKey \<Rightarrow> (Rule \<Rightarrow> gen_kind) option) \<Rightarrow> bool" where
  "registry_conforms reg K \<longleftrightarrow> (\<forall>key. reg key = map_option constructor_like (K key))"

definition gen_kind_of :: "(trafficControllerGenKey \<Rightarrow> (Rule \<Rightarrow> gen_kind) option) \<Rightarrow> Rule \<Rightarrow> gen_kind option" where
  "gen_kind_of K v =
     (case K (TokenCalculateStrategy v, ControlBehavior v) of None \<Rightarrow> None | Some k \<Rightarrow> Some (k v))"

text \<open>
  The three fates of a rule value in buildFlowMap: it is accepted (valid, and its
  generator builds a controller), rejected (invalid, or no generator for its pair, or the
  generator returns nil), or its generator panics.
\<close>

definition accepted :: "(trafficControllerGenKey \<Rightarrow> (Rule \<Rightarrow> gen_kind) option) \<Rightarrow> Rule \<Rightarrow> bool" where
  "accepted K v \<longleftrightarrow> IsValidRule (Some v) = None \<and> gen_kind_of K v = Some KNew"

definition rejected :: "(trafficControllerGenKey \<Rightarrow> (Rule \<Rightarrow> gen_kind) option) \<Rightarrow> Rule \<Rightarrow> bool" where
  "rejected K v \<longleftrightarrow>
     IsValidRule (Some v) \<noteq> None \<or> gen_kind_of K v = None \<or> gen_kind_of K v = Some KNil"

definition gen_panics :: "(trafficControllerGenKey \<Rightarrow> (Rule \<Rightarrow> gen_kind) option) \<Rightarrow> Rule \<Rightarrow> bool" where
  "gen_panics K v \<longleftrightarrow> IsValidRule (Some v) = None \<and> (\<exists>e. gen_kind_of K v = Some (KPanic e))"

text \<open>
  The non-nil pointers of a slice, in order; a list without its repetitions, every
  element at its first occurrence; and the accepted rule values of a resource in input
  order.
\<close>

definition non_nil :: "'a option list \<Rightarrow> 'a list" where
  "non_nil ps = concat (map (\<lambda>p. case p of None \<Rightarrow> [] | Some x \<Rightarrow> [x]) ps)"

definition first_seen :: "'a list \<Rightarrow> 'a list" where
  "first_seen xs = rev (remdups (rev xs))"

definition accepted_values ::
  "(trafficControllerGenKey \<Rightarrow> (Rule \<Rightarrow> gen_kind) option) \<Rightarrow> heap \<Rightarrow> addr option list \<Rightarrow> string \<Rightarrow> Rule list" where
  "accepted_values K h rules res =
     filter (\<lambda>v. accepted K v \<and> Resource v = res) (map (rule_mem h) (non_nil rules))"

text \<open>
  The loop invariant of buildFlowMap over a conforming registry, after the rules
  \<open>pre\<close> have been processed from the memory \<open>h0\<close>: rules and old
  controllers are untouched; the candidate map has distinct keys and no empty list;
  every controller in it is new and carries an input rule; each resource holds the first
  occurrences of its accepted values; the failed rules are the rejected ones.
\<close>

definition heap_kept :: "heap \<Rightarrow> heap \<Rightarrow> bool" where
  "heap_kept h0 h \<longleftrightarrow>
     rule_mem h = rule_mem h0 \<and> rule_next h = rule_next h0 \<and> tsc_next h0 \<le> tsc_next h \<and>
     (\<forall>a < tsc_next h0. tsc_mem h a = tsc_mem h0 a)"

definition new_controllers :: "heap \<Rightarrow> heap \<Rightarrow> addr option list \<Rightarrow> TrafficControllerMap \<Rightarrow> bool" where
  "new_controllers h0 h pre m \<longleftrightarrow>
     (\<forall>tc \<in> set (controllers m). tsc_next h0 \<le> tc \<and> tc < tsc_next h \<and>
        (\<exists>r. rule (tsc_mem h tc) = Some r \<and> Some r \<in> set pre))"

definition values_ok ::
  "(trafficControllerGenKey \<Rightarrow> (Rule \<Rightarrow> gen_kind) option) \<Rightarrow> heap \<Rightarrow> addr option list
     \<Rightarrow> TrafficControllerMap \<Rightarrow> heap \<Rightarrow> bool" where
  "values_ok K h0 pre m h \<longleftrightarrow>
     (\<forall>res. tc_values h (tcs_of m res) = first_seen (accepted_values K h0 pre res))"

definition failed_ok ::
  "(trafficControllerGenKey \<Rightarrow> (Rule \<Rightarrow> gen_kind) option) \<Rightarrow> heap \<Rightarrow> addr option list
     \<Rightarrow> addr option slice \<Rightarrow> bool" where
  "failed_ok K h0 pre failedRules \<longleftrightarrow>
     elems failedRules = map Some (filter (\<lambda>r. rejected K (rule_mem h0 r)) (non_nil pre))"

definition build_inv ::
  "(trafficControllerGenKey \<Rightarrow> (Rule \<Rightarrow> gen_kind) option) \<Rightarrow> heap \<Rightarrow> addr option list \<Rightarrow> build_state \<Rightarrow> bool" where
  "build_inv K h0 pre s =
     (case s of (m, failedRules, h) \<Rightarrow>
        heap_kept h0 h \<and> distinct (map fst m) \<and> [] \<notin> snd ` set m \<and>
        new_controllers h0 h pre m \<and> values_ok K h0 pre m h \<and> failed_ok K h0 pre failedRules)"

subsection \<open>Example rules and states\<close>

text \<open>
  The rules of the package's tests: a Direct/Reject rule for resource abc, the valid
  warm-up rule, and a rule with the custom pair (111, 112).
\<close>

definition rule_abc :: Rule where
  "rule_abc = \<lparr>Resource = ''abc'', MetricType = 0, TokenCalculateStrategy = Direct,
     ControlBehavior = Reject, Count = 0, RelationStrategy = CurrentResource, RefResource = [],
     MaxQueueingTimeMs = 0, WarmUpPeriodSec = 0, WarmUpColdFactor = 0\<rparr>"

definition rule_warm :: Rule where
  "rule_warm = \<lparr>Resource = ''test'', MetricType = 1, TokenCalculateStrategy = WarmUp,
     ControlBehavior = Throttling, Count = 10, RelationStrategy = CurrentResource, RefResource = [],
     MaxQueueingTimeMs = 0, WarmUpPeriodSec = 10, WarmUpColdFactor = 2\<rparr>"

definition rule_custom :: Rule where
  "rule_custom = \<lparr>Resource = ''test-customized-tc'', MetricType = 1, TokenCalculateStrategy = 111,
     ControlBehavior = 112, Count = 20, RelationStrategy = CurrentResource, RefResource = [],
     MaxQueueingTimeMs = 0, WarmUpPeriodSec = 0, WarmUpColdFactor = 0\<rparr>"

text \<open>
  A memory with four rule objects (two separate objects with the fields of
  \<open>rule_abc\<close>, at 0 and 1) and one controller object for the custom rule, and a
  state with the initial registry and an empty effective map.
\<close>

definition example_heap :: heap where
  "example_heap =
     \<lparr>rule_mem = (\<lambda>a. if a = 0 \<or> a = 1 then rule_abc else if a = 2 then rule_warm else rule_custom),
      rule_next = 4,
      tsc_mem = (\<lambda>a. \<lparr>rule = Some 3\<rparr>),
      tsc_next = 1\<rparr>"

definition example_state :: state where
  "example_state = \<lparr>mem = example_heap, tcGenFuncMap = init_tcGenFuncMap, tcMap = []\<rparr>"

text \<open>
  Two custom generators: one hands out a controller it holds on to, as the closure of
  TestSetAndRemoveTrafficShapingGenerator does, the other panics.
\<close>

definition shared_generator :: "addr \<Rightarrow> TrafficControllerGenFunc" where
  "shared_generator tsc h r = GenReturn (Some tsc) h"

definition panicking_generator :: TrafficControllerGenFunc where
  "panicking_generator h r = GenPanic ''generator failed'' h"

text \<open>
  A state whose effective map holds the controller at 0 for the custom rule at 3, and
  in which the pair (111, 112) is bound to the panicking generator.
\<close>

definition loaded_state :: state where
  "loaded_state =
     \<lparr>mem = example_heap,
      tcGenFuncMap = init_tcGenFuncMap((111, 112) \<mapsto> panicking_generator),
      tcMap = [(''test-customized-tc'', [0])]\<rparr>"

text \<open>
  The built-in generators are factories that always build; \<open>init_kinds\<close>
  describes the initial registry, \<open>loaded_kinds\<close> the registry of
  \<open>loaded_state\<close>.
\<close>

definition init_kinds :: "trafficControllerGenKey \<Rightarrow> (Rule \<Rightarrow> gen_kind) option" where
  "init_kinds =
     (((Map.empty((Direct, Reject) \<mapsto> (\<lambda>v. KNew)))
         ((Direct, Throttling) \<mapsto> (\<lambda>v. KNew)))
         ((WarmUp, Reject) \<mapsto> (\<lambda>v. KNew)))
         ((WarmUp, Throttling) \<mapsto> (\<lambda>v. KNew))"

definition loaded_kinds :: "trafficControllerGenKey \<Rightarrow> (Rule \<Rightarrow> gen_kind) option" where
  "loaded_kinds = init_kinds((111, 112) \<mapsto> (\<lambda>v. KPanic ''generator failed''))"

text \<open>
  A state in which the pair (111, 112) is bound to a generator that hands out the
  controller at 0, whose rule is the custom rule at 3; the effective map is empty.
\<close>

definition shared_state :: state where
  "shared_state =
     \<lparr>mem = example_heap,
      tcGenFuncMap = init_tcGenFuncMap((111, 112) \<mapsto> shared_generator 0),
      tcMap = []\<rparr>"

section \<open>Properties\<close>

subsection \<open>Validation\<close>

text \<open>
  C5, as the code has it. IsValidRule checks in this order and stops at the first
  violation, each with an error message of its own: a nil rule; an empty Resource;
  Count < 0; a negative MetricType; a negative RelationStrategy; a negative
  TokenCalculateStrategy or ControlBehavior; RelationStrategy = AssociatedResource with an
  empty RefResource; TokenCalculateStrategy = WarmUp with WarmUpPeriodSec <= 0; WarmUp with
  WarmUpColdFactor = 1. A rule with WarmUp, WarmUpPeriodSec = 10, WarmUpColdFactor = 2 and
  all other fields valid is accepted.
\<close>

theorem IsValidRule_first_violation:
  "IsValidRule None = Some ''nil Rule'' \<and>
   (Resource r = [] \<longrightarrow> IsValidRule (Some r) = Some ''empty resource name'') \<and>
   (Resource r \<noteq> [] \<and> Count r < 0 \<longrightarrow> IsValidRule (Some r) = Some ''negative threshold'') \<and>
   (Resource r \<noteq> [] \<and> 0 \<le> Count r \<and> MetricType r < 0 \<longrightarrow>
      IsValidRule (Some r) = Some ''invalid metric type'') \<and>
   (Resource r \<noteq> [] \<and> 0 \<le> Count r \<and> 0 \<le> MetricType r \<and> RelationStrategy r < 0 \<longrightarrow>
      IsValidRule (Some r) = Some ''invalid relation strategy'') \<and>
   (Resource r \<noteq> [] \<and> 0 \<le> Count r \<and> 0 \<le> MetricType r \<and> 0 \<le> RelationStrategy r \<and>
    (TokenCalculateStrategy r < 0 \<or> ControlBehavior r < 0) \<longrightarrow>
      IsValidRule (Some r) = Some ''invalid control strategy'') \<and>
   (Resource r \<noteq> [] \<and> 0 \<le> Count r \<and> 0 \<le> MetricType r \<and> 0 \<le> RelationStrategy r \<and>
    0 \<le> TokenCalculateStrategy r \<and> 0 \<le> ControlBehavior r \<and>
    RelationStrategy r = AssociatedResource \<and> RefResource r = [] \<longrightarrow>
      IsValidRule (Some r) = Some ''Bad flow rule: invalid control behavior'') \<and>
   (Resource r \<noteq> [] \<and> 0 \<le> Count r \<and> 0 \<le> MetricType r \<and> 0 \<le> RelationStrategy r \<and>
    0 \<le> TokenCalculateStrategy r \<and> 0 \<le> ControlBehavior r \<and>
    \<not> (RelationStrategy r = AssociatedResource \<and> RefResource r = []) \<and>
    TokenCalculateStrategy r = WarmUp \<and> WarmUpPeriodSec r \<le> 0 \<longrightarrow>
      IsValidRule (Some r) = Some ''invalid warmUpPeriodSec'') \<and>
   (Resource r \<noteq> [] \<and> 0 \<le> Count r \<and> 0 \<le> MetricType r \<and> 0 \<le> RelationStrategy r \<and>
    0 \<le> TokenCalculateStrategy r \<and> 0 \<le> ControlBehavior r \<and>
    \<not> (RelationStrategy r = AssociatedResource \<and> RefResource r = []) \<and>
    TokenCalculateStrategy r = WarmUp \<and> 0 < WarmUpPeriodSec r \<and> WarmUpColdFactor r = 1 \<longrightarrow>
      IsValidRule (Some r) = Some ''WarmUpColdFactor must be great than 1'') \<and>
   (Resource r \<noteq> [] \<and> 0 \<le> Count r \<and> 0 \<le> MetricType r \<and> 0 \<le> RelationStrategy r \<and>
    0 \<le> ControlBehavior r \<and>
    \<not> (RelationStrategy r = AssociatedResource \<and> RefResource r = []) \<and>
    TokenCalculateStrategy r = WarmUp \<and> WarmUpPeriodSec r = 10 \<and> WarmUpColdFactor r = 2 \<longrightarrow>
      IsValidRule (Some r) = None) \<and>
   distinct [''nil Rule'', ''empty resource name'', ''negative threshold'', ''invalid metric type'',
     ''invalid relation strategy'', ''invalid control strategy'',
     ''Bad flow rule: invalid control behavior'', ''invalid warmUpPeriodSec'',
     ''WarmUpColdFactor must be great than 1'']"
  by (simp add: IsValidRule_def WarmUp_def)

theorem IsValidRule_first_violation_witness:
  "IsValidRule (Some rule_warm) = None \<and>
   IsValidRule (Some (rule_warm\<lparr>WarmUpPeriodSec := 0\<rparr>)) = Some ''invalid warmUpPeriodSec''"
  using IsValidRule_first_violation [of rule_warm]
    IsValidRule_first_violation [of "rule_warm\<lparr>WarmUpPeriodSec := 0\<rparr>"]
  by (simp add: rule_warm_def WarmUp_def Throttling_def CurrentResource_def AssociatedResource_def)

text \<open>
  The claim C5 as the spec words it also has IsValidRule reject an unknown
  RelationStrategy. The code compares with 0 only: relation strategy 7, which is neither
  CurrentResource nor AssociatedResource, is accepted.
\<close>

theorem IsValidRule_unknown_relation_counterexample:
  "RelationStrategy (rule_abc\<lparr>RelationStrategy := 7\<rparr>) \<noteq> CurrentResource \<and>
   RelationStrategy (rule_abc\<lparr>RelationStrategy := 7\<rparr>) \<noteq> AssociatedResource \<and>
   IsValidRule (Some (rule_abc\<lparr>RelationStrategy := 7\<rparr>)) = None"
  by (simp add: IsValidRule_def rule_abc_def CurrentResource_def AssociatedResource_def
      WarmUp_def Direct_def Reject_def)

subsection \<open>The generator registry\<close>

lemma remove_absent_noop:
  "tcGenFuncMap st k = None \<Longrightarrow> st\<lparr>tcGenFuncMap := (tcGenFuncMap st)(k := None)\<rparr> = st"
proof -
  assume "tcGenFuncMap st k = None"
  then have "(tcGenFuncMap st)(k := None) = tcGenFuncMap st"
    by (metis fun_upd_triv)
  then show ?thesis by simp
qed

text \<open>
  C6. SetTrafficShapingGenerator fails on a nil generator. Both
  SetTrafficShapingGenerator and RemoveTrafficShapingGenerator fail whenever the strategy
  lies between Direct and WarmUp or, independently, the behaviour lies between Reject and
  Throttling; every failure leaves the state, and so the registry, as it was. Otherwise
  Set stores the generator under the pair, replacing what was there, and Remove deletes
  the entry; removing an entry that is absent succeeds and changes nothing.
\<close>

theorem generator_registry_protection:
  "SetTrafficShapingGenerator st ts cb None = (Some ''nil generator'', st) \<and>
   ((Direct \<le> ts \<and> ts \<le> WarmUp) \<or> (Reject \<le> cb \<and> cb \<le> Throttling) \<longrightarrow>
      (\<exists>e. SetTrafficShapingGenerator st ts cb gen = (Some e, st)) \<and>
      (\<exists>e. RemoveTrafficShapingGenerator st ts cb = (Some e, st))) \<and>
   (\<not> (Direct \<le> ts \<and> ts \<le> WarmUp) \<and> \<not> (Reject \<le> cb \<and> cb \<le> Throttling) \<longrightarrow>
      SetTrafficShapingGenerator st ts cb (Some g) =
        (None, st\<lparr>tcGenFuncMap := (tcGenFuncMap st)((ts, cb) \<mapsto> g)\<rparr>) \<and>
      RemoveTrafficShapingGenerator st ts cb =
        (None, st\<lparr>tcGenFuncMap := (tcGenFuncMap st)((ts, cb) := None)\<rparr>) \<and>
      (tcGenFuncMap st (ts, cb) = None \<longrightarrow> RemoveTrafficShapingGenerator st ts cb = (None, st)))"
  by (cases gen)
    (auto simp add: SetTrafficShapingGenerator_def RemoveTrafficShapingGenerator_def remove_absent_noop)

theorem generator_registry_protection_witness:
  "(\<exists>e. SetTrafficShapingGenerator example_state Direct 112 (Some panicking_generator)
          = (Some e, example_state)) \<and>
   (\<exists>e. RemoveTrafficShapingGenerator example_state Direct 112 = (Some e, example_state)) \<and>
   SetTrafficShapingGenerator example_state 111 112 (Some panicking_generator) =
     (None, example_state\<lparr>tcGenFuncMap := (tcGenFuncMap example_state)((111, 112) \<mapsto> panicking_generator)\<rparr>) \<and>
   RemoveTrafficShapingGenerator example_state 111 112 = (None, example_state)"
  using generator_registry_protection [of example_state Direct 112 "Some panicking_generator"]
    generator_registry_protection [of example_state 111 112 "Some panicking_generator" panicking_generator]
  by (simp add: Direct_def WarmUp_def Reject_def Throttling_def example_state_def init_tcGenFuncMap_def)

subsection \<open>Queries on an absent resource\<close>

text \<open>
  C10. For a resource that is not in the effective map, getRulesOfResource returns the
  nil slice, and GetRulesOfResource returns without a panic an empty slice that is not
  nil; GetRules on an empty effective map returns an empty slice that is not nil. Neither
  call changes the state.
\<close>

theorem GetRules_unknown_resource_empty:
  "(map_of (tcMap st) res = None \<longrightarrow>
      getRulesOfResource st res = None \<and> GetRulesOfResource st res = Inr (Some [], st)) \<and>
   (tcMap st = [] \<longrightarrow> GetRules st = Inr (Some [], st))"
  by (simp add: GetRulesOfResource_def getRulesOfResource_def GetRules_def getRules_def
      rulesFrom_def elems_def)

theorem GetRules_unknown_resource_empty_witness:
  "GetRulesOfResource example_state ''abc'' = Inr (Some [], example_state) \<and>
   GetRules example_state = Inr (Some [], example_state)"
  using GetRules_unknown_resource_empty [of example_state "''abc''"]
  by (simp add: example_state_def)

subsection \<open>Memory: copies and frames\<close>

lemma heap_extends_refl: "heap_extends h h"
  by (simp add: heap_extends_def)

lemma heap_extends_trans: "heap_extends h1 h2 \<Longrightarrow> heap_extends h2 h3 \<Longrightarrow> heap_extends h1 h3"
  by (auto simp add: heap_extends_def)

lemma deref_all_cong:
  "\<forall>p. Some p \<in> set ps \<longrightarrow> rule_mem h' p = rule_mem h p \<Longrightarrow> deref_all h' ps = deref_all h ps"
proof (induction ps)
  case Nil
  then show ?case by simp
next
  case (Cons x ps)
  have IH: "deref_all h' ps = deref_all h ps" using Cons by simp
  show ?case
  proof (cases x)
    case None
    then show ?thesis by simp
  next
    case (Some a)
    have "rule_mem h' a = rule_mem h a"
      using Cons.prems [rule_format, of a] Some by simp
    then show ?thesis using IH Some by (simp split: sum.splits)
  qed
qed

lemma copy_rules_spec:
  "\<forall>p. Some p \<in> set ps \<longrightarrow> p < rule_next h \<Longrightarrow>
   (case copy_rules h ps of
      Inl e \<Rightarrow> deref_all h ps = Inl e
    | Inr (cells, h') \<Rightarrow>
        deref_all h ps = Inr (map (rule_mem h') cells) \<and>
        (\<forall>c \<in> set cells. rule_next h \<le> c \<and> c < rule_next h') \<and>
        rule_next h \<le> rule_next h' \<and>
        tsc_mem h' = tsc_mem h \<and> tsc_next h' = tsc_next h \<and>
        (\<forall>a < rule_next h. rule_mem h' a = rule_mem h a))"
proof (induction ps arbitrary: h)
  case Nil
  then show ?case by simp
next
  case (Cons x ps)
  show ?case
  proof (cases x)
    case None
    then show ?thesis by simp
  next
    case (Some p)
    let ?h1 = "h\<lparr>rule_mem := (rule_mem h)(rule_next h := rule_mem h p), rule_next := Suc (rule_next h)\<rparr>"
    have p: "p < rule_next h" using Cons.prems [rule_format, of p] Some by simp
    have ps: "\<And>q. Some q \<in> set ps \<Longrightarrow> q < rule_next h"
      using Cons.prems by simp
    have alloc: "\<forall>q. Some q \<in> set ps \<longrightarrow> q < rule_next ?h1"
      using ps by (auto simp add: less_Suc_eq)
    have same: "deref_all ?h1 ps = deref_all h ps"
    proof (rule deref_all_cong, intro allI impI)
      fix q assume "Some q \<in> set ps"
      then have "q \<noteq> rule_next h" using ps by blast
      then show "rule_mem ?h1 q = rule_mem h q" by simp
    qed
    note IH = Cons.IH [OF alloc]
    show ?thesis
    proof (cases "copy_rules ?h1 ps")
      case (Inl e)
      then show ?thesis using IH Some same by simp
    next
      case (Inr res)
      obtain cells h' where res: "res = (cells, h')" by (cases res)
      have f1: "deref_all ?h1 ps = Inr (map (rule_mem h') cells)"
        and f2: "\<forall>c \<in> set cells. rule_next ?h1 \<le> c \<and> c < rule_next h'"
        and f3: "rule_next ?h1 \<le> rule_next h'"
        and f4: "tsc_mem h' = tsc_mem ?h1" and f5: "tsc_next h' = tsc_next ?h1"
        and f6: "\<forall>a < rule_next ?h1. rule_mem h' a = rule_mem ?h1 a"
        using IH Inr res by simp_all
      have head: "rule_mem h' (rule_next h) = rule_mem h p"
        using f6 [rule_format, of "rule_next h"] by simp
      have low: "\<forall>a < rule_next h. rule_mem h' a = rule_mem h a"
      proof (intro allI impI)
        fix a assume a: "a < rule_next h"
        then have "rule_mem h' a = rule_mem ?h1 a" using f6 [rule_format, of a] by simp
        then show "rule_mem h' a = rule_mem h a" using a by simp
      qed
      have c1: "copy_rules h (x # ps) = Inr (rule_next h # cells, h')"
        using Inr res Some by simp
      have tl: "deref_all h ps = Inr (map (rule_mem h') cells)"
        using same f1 by simp
      have c2: "deref_all h (x # ps) = Inr (map (rule_mem h') (rule_next h # cells))"
        unfolding Some using tl head by simp
      have c3: "\<forall>c \<in> set (rule_next h # cells). rule_next h \<le> c \<and> c < rule_next h'"
        using f2 f3 by auto
      have c4: "rule_next h \<le> rule_next h'" using f3 by simp
      show ?thesis
        unfolding c1 using c2 c3 c4 f4 f5 low by simp
    qed
  qed
qed

lemma rules_of_tcs_cong:
  "\<forall>tc \<in> set tcs. tsc_mem h' tc = tsc_mem h tc \<Longrightarrow> rules_of_tcs h' tcs = rules_of_tcs h tcs"
  by (induction tcs) (simp_all add: rules_of_tcs_def)

lemma rulesFrom_cong:
  "\<forall>tc \<in> set (controllers m). tsc_mem h' tc = tsc_mem h tc \<Longrightarrow> rulesFrom h' m = rulesFrom h m"
proof (induction m)
  case Nil
  then show ?case by (simp add: rulesFrom_def)
next
  case (Cons x m)
  obtain res rs where x: "x = (res, rs)" by (cases x)
  have "rules_of_tcs h' rs = rules_of_tcs h rs"
    using Cons.prems x by (intro rules_of_tcs_cong) (simp add: controllers_def)
  moreover have "rulesFrom h' m = rulesFrom h m"
    using Cons by (simp add: controllers_def)
  ultimately show ?case using x by (simp add: rulesFrom_def)
qed

lemma rules_of_tcs_allocated:
  "\<forall>tc \<in> set tcs. \<forall>p. rule (tsc_mem h tc) = Some p \<longrightarrow> p < n \<Longrightarrow>
   \<forall>p \<in> set (rules_of_tcs h tcs). p < n"
  by (induction tcs) (auto simp add: rules_of_tcs_def split: option.splits)

lemma rulesFrom_allocated:
  "map_allocated h m \<Longrightarrow> \<forall>p \<in> set (rulesFrom h m). p < rule_next h"
proof (induction m)
  case Nil
  then show ?case by (simp add: rulesFrom_def)
next
  case (Cons x m)
  obtain res rs where x: "x = (res, rs)" by (cases x)
  have a: "\<forall>p \<in> set (rules_of_tcs h rs). p < rule_next h"
    using Cons.prems x by (intro rules_of_tcs_allocated) (auto simp add: map_allocated_def controllers_def)
  have "map_allocated h m" using Cons.prems by (auto simp add: map_allocated_def controllers_def)
  then have b: "\<forall>p \<in> set (rulesFrom h m). p < rule_next h" using Cons.IH by simp
  show ?case using a b x by (auto simp add: rulesFrom_def)
qed

lemma deref_all_Some: "deref_all h (map Some ps) = Inr (map (rule_mem h) ps)"
  by (induction ps) simp_all

lemma GetRules_result_eq:
  assumes "map_allocated (mem st) (tcMap st)"
  shows "GetRules_result st = Inr (mset (map (rule_mem (mem st)) (getRules st)))"
proof -
  have alloc: "\<forall>p. Some p \<in> set (map Some (getRules st)) \<longrightarrow> p < rule_next (mem st)"
    using rulesFrom_allocated [OF assms] by (auto simp add: getRules_def)
  show ?thesis
  proof (cases "copy_rules (mem st) (map Some (getRules st))")
    case (Inl e)
    then show ?thesis using copy_rules_spec [OF alloc] by (simp add: deref_all_Some)
  next
    case (Inr res)
    obtain cells h' where res: "res = (cells, h')" by (cases res)
    have "map (rule_mem (mem st)) (getRules st) = map (rule_mem h') cells"
      using copy_rules_spec [OF alloc] Inr res by (simp add: deref_all_Some)
    then show ?thesis
      using Inr res by (simp add: GetRules_result_def GetRules_def rule_values_def elems_def)
  qed
qed

lemma GetRulesOfResource_result_eq:
  assumes "map_allocated (mem st) (tcMap st)"
  shows "GetRulesOfResource_result st res = deref_all (mem st) (elems (getRulesOfResource st res))"
proof -
  have alloc: "\<forall>p. Some p \<in> set (elems (getRulesOfResource st res)) \<longrightarrow> p < rule_next (mem st)"
  proof (intro allI impI)
    fix p assume p: "Some p \<in> set (elems (getRulesOfResource st res))"
    then obtain tcs where tcs: "map_of (tcMap st) res = Some tcs"
      by (auto simp add: getRulesOfResource_def elems_def split: option.splits)
    with p obtain tc where tc: "tc \<in> set tcs" "rule (tsc_mem (mem st) tc) = Some p"
      by (auto simp add: getRulesOfResource_def elems_def)
    have "(res, tcs) \<in> set (tcMap st)" using tcs by (rule map_of_SomeD)
    then have "tc \<in> set (controllers (tcMap st))" using tc(1)
      by (force simp add: controllers_def)
    then show "p < rule_next (mem st)" using assms tc(2) by (auto simp add: map_allocated_def)
  qed
  show ?thesis
    using copy_rules_spec [OF alloc]
    by (auto simp add: GetRulesOfResource_result_def GetRulesOfResource_def rule_values_def elems_def
        split: sum.splits)
qed


lemma map_allocated_controllers:
  "map_allocated h m \<Longrightarrow> tc \<in> set (controllers m) \<Longrightarrow> tc < tsc_next h"
  by (simp add: map_allocated_def)

lemma map_allocated_extends:
  assumes "map_allocated h m" "heap_extends h h'"
  shows "map_allocated h' m"
  unfolding map_allocated_def
proof (intro ballI conjI allI impI)
  fix tc assume tc: "tc \<in> set (controllers m)"
  then have lt: "tc < tsc_next h" using assms(1) by (simp add: map_allocated_def)
  then show "tc < tsc_next h'" using assms(2) by (simp add: heap_extends_def)
  fix p assume "rule (tsc_mem h' tc) = Some p"
  then have "rule (tsc_mem h tc) = Some p" using lt assms(2) by (simp add: heap_extends_def)
  then have "p < rule_next h" using assms(1) tc by (simp add: map_allocated_def)
  then show "p < rule_next h'" using assms(2) by (simp add: heap_extends_def)
qed

lemma rulesFrom_extends:
  assumes "map_allocated h m" "heap_extends h h'"
  shows "rulesFrom h' m = rulesFrom h m"
    and "map (rule_mem h') (rulesFrom h m) = map (rule_mem h) (rulesFrom h m)"
proof -
  show "rulesFrom h' m = rulesFrom h m"
    using assms by (intro rulesFrom_cong) (simp add: map_allocated_def heap_extends_def)
  show "map (rule_mem h') (rulesFrom h m) = map (rule_mem h) (rulesFrom h m)"
    using rulesFrom_allocated [OF assms(1)] assms(2) by (simp add: heap_extends_def)
qed

lemma getRulesOfResource_extends:
  assumes "map_allocated (mem st) (tcMap st)" "heap_extends (mem st) h'"
  shows "getRulesOfResource (st\<lparr>mem := h'\<rparr>) res = getRulesOfResource st res"
proof (cases "map_of (tcMap st) res")
  case None
  then show ?thesis by (simp add: getRulesOfResource_def)
next
  case (Some tcs)
  have "(res, tcs) \<in> set (tcMap st)" using Some by (rule map_of_SomeD)
  then have "\<forall>tc \<in> set tcs. tc \<in> set (controllers (tcMap st))"
    by (force simp add: controllers_def)
  then have "\<forall>tc \<in> set tcs. tsc_mem h' tc = tsc_mem (mem st) tc"
    using assms by (simp add: map_allocated_def heap_extends_def)
  then show ?thesis using Some by (simp add: getRulesOfResource_def)
qed

lemma getRulesOfResource_allocated:
  assumes "map_allocated (mem st) (tcMap st)"
    and "Some p \<in> set (elems (getRulesOfResource st res))"
  shows "p < rule_next (mem st)"
proof -
  obtain tcs where tcs: "map_of (tcMap st) res = Some tcs"
    using assms(2) by (auto simp add: getRulesOfResource_def elems_def split: option.splits)
  with assms(2) obtain tc where tc: "tc \<in> set tcs" "rule (tsc_mem (mem st) tc) = Some p"
    by (auto simp add: getRulesOfResource_def elems_def)
  have "(res, tcs) \<in> set (tcMap st)" using tcs by (rule map_of_SomeD)
  then have "tc \<in> set (controllers (tcMap st))" using tc(1)
    by (force simp add: controllers_def)
  then show ?thesis using assms(1) tc(2) by (auto simp add: map_allocated_def)
qed

lemma query_frame:
  assumes "map_allocated (mem st) (tcMap st)" "heap_extends (mem st) h'"
  shows "GetRules_result (st\<lparr>mem := h'\<rparr>) = GetRules_result st"
    and "GetRulesOfResource_result (st\<lparr>mem := h'\<rparr>) res = GetRulesOfResource_result st res"
proof -
  have alloc': "map_allocated (mem (st\<lparr>mem := h'\<rparr>)) (tcMap (st\<lparr>mem := h'\<rparr>))"
    using map_allocated_extends [OF assms] by simp
  have e1: "getRules (st\<lparr>mem := h'\<rparr>) = getRules st"
    using rulesFrom_extends(1) [OF assms] by (simp add: getRules_def)
  have e2: "map (rule_mem h') (getRules st) = map (rule_mem (mem st)) (getRules st)"
    using rulesFrom_extends(2) [OF assms] by (simp add: getRules_def)
  have e3: "map (rule_mem (mem (st\<lparr>mem := h'\<rparr>))) (getRules (st\<lparr>mem := h'\<rparr>))
              = map (rule_mem (mem st)) (getRules st)"
    unfolding e1 using e2 by simp
  show "GetRules_result (st\<lparr>mem := h'\<rparr>) = GetRules_result st"
    by (simp only: GetRules_result_eq [OF alloc'] GetRules_result_eq [OF assms(1)] e3)
  have same: "getRulesOfResource (st\<lparr>mem := h'\<rparr>) res = getRulesOfResource st res"
    by (rule getRulesOfResource_extends [OF assms])
  have "deref_all h' (elems (getRulesOfResource st res)) = deref_all (mem st) (elems (getRulesOfResource st res))"
  proof (rule deref_all_cong, intro allI impI)
    fix p assume "Some p \<in> set (elems (getRulesOfResource st res))"
    then have "p < rule_next (mem st)" by (rule getRulesOfResource_allocated [OF assms(1)])
    then show "rule_mem h' p = rule_mem (mem st) p" using assms(2) by (simp add: heap_extends_def)
  qed
  then show "GetRulesOfResource_result (st\<lparr>mem := h'\<rparr>) res = GetRulesOfResource_result st res"
    using GetRulesOfResource_result_eq [OF alloc', of res] GetRulesOfResource_result_eq [OF assms(1), of res] same
    by simp
qed

lemma copy_rules_cells_fresh:
  assumes "\<forall>p. Some p \<in> set ps \<longrightarrow> p < rule_next h" "copy_rules h ps = Inr (cells, h')"
    and "\<forall>a. a \<notin> set cells \<longrightarrow> rm a = rule_mem h' a"
  shows "heap_extends h (h'\<lparr>rule_mem := rm\<rparr>)"
proof -
  have f: "\<forall>c \<in> set cells. rule_next h \<le> c" "rule_next h \<le> rule_next h'"
    "tsc_mem h' = tsc_mem h" "tsc_next h' = tsc_next h"
    "\<forall>a < rule_next h. rule_mem h' a = rule_mem h a"
    using copy_rules_spec [OF assms(1)] assms(2) by auto
  have "\<forall>a < rule_next h. rm a = rule_mem h a"
  proof (intro allI impI)
    fix a assume a: "a < rule_next h"
    then have "a \<notin> set cells" using f(1) by auto
    then show "rm a = rule_mem h a" using assms(3) f(5) a by simp
  qed
  then show ?thesis using f by (simp add: heap_extends_def)
qed

text \<open>
  C7. GetRules and GetRulesOfResource return copies. Let either of them return the slice
  \<open>s\<close> in a state whose effective map is allocated, and let the caller then write
  whatever it likes (\<open>rm\<close>) into the elements of \<open>s\<close>. The effective map, its
  controllers, the rule pointers behind them and the rules these point to are as before
  the call, and so are the results of GetRules and of GetRulesOfResource for every
  resource.
\<close>

theorem query_copy_isolation:
  assumes "map_allocated (mem st) (tcMap st)"
    and "GetRules st = Inr (s, st1) \<or> GetRulesOfResource st res = Inr (s, st1)"
    and "\<forall>a. a \<notin> set (elems s) \<longrightarrow> rm a = rule_mem (mem st1) a"
  shows "tcMap (st1\<lparr>mem := (mem st1)\<lparr>rule_mem := rm\<rparr>\<rparr>) = tcMap st \<and>
         tsc_mem (mem (st1\<lparr>mem := (mem st1)\<lparr>rule_mem := rm\<rparr>\<rparr>)) = tsc_mem (mem st) \<and>
         getRules (st1\<lparr>mem := (mem st1)\<lparr>rule_mem := rm\<rparr>\<rparr>) = getRules st \<and>
         map (rule_mem (mem (st1\<lparr>mem := (mem st1)\<lparr>rule_mem := rm\<rparr>\<rparr>))) (getRules st)
           = map (rule_mem (mem st)) (getRules st) \<and>
         GetRules_result (st1\<lparr>mem := (mem st1)\<lparr>rule_mem := rm\<rparr>\<rparr>) = GetRules_result st \<and>
         (\<forall>res'. GetRulesOfResource_result (st1\<lparr>mem := (mem st1)\<lparr>rule_mem := rm\<rparr>\<rparr>) res'
                   = GetRulesOfResource_result st res')"
proof -
  let ?h2 = "(mem st1)\<lparr>rule_mem := rm\<rparr>"
  have "\<exists>ps cells. (\<forall>p. Some p \<in> set ps \<longrightarrow> p < rule_next (mem st)) \<and>
          copy_rules (mem st) ps = Inr (cells, mem st1) \<and> s = Some cells \<and> st1 = st\<lparr>mem := mem st1\<rparr>"
    using assms(2)
  proof
    assume g: "GetRules st = Inr (s, st1)"
    have "\<forall>p. Some p \<in> set (map Some (getRules st)) \<longrightarrow> p < rule_next (mem st)"
      using rulesFrom_allocated [OF assms(1)] by (auto simp add: getRules_def)
    then show ?thesis using g
      by (intro exI [of _ "map Some (getRules st)"])
         (auto simp add: GetRules_def split: sum.splits)
  next
    assume g: "GetRulesOfResource st res = Inr (s, st1)"
    have "\<forall>p. Some p \<in> set (elems (getRulesOfResource st res)) \<longrightarrow> p < rule_next (mem st)"
      using getRulesOfResource_allocated [OF assms(1)] by blast
    then show ?thesis using g
      by (intro exI [of _ "elems (getRulesOfResource st res)"])
         (auto simp add: GetRulesOfResource_def split: sum.splits)
  qed
  then obtain ps cells where ps: "\<forall>p. Some p \<in> set ps \<longrightarrow> p < rule_next (mem st)"
    and cp: "copy_rules (mem st) ps = Inr (cells, mem st1)"
    and s: "s = Some cells" and st1: "st1 = st\<lparr>mem := mem st1\<rparr>"
    by blast
  have rm: "\<forall>a. a \<notin> set cells \<longrightarrow> rm a = rule_mem (mem st1) a"
    using assms(3) s by (simp add: elems_def)
  have ext: "heap_extends (mem st) ?h2"
    by (rule copy_rules_cells_fresh [OF ps cp rm])
  have st2: "st1\<lparr>mem := ?h2\<rparr> = st\<lparr>mem := ?h2\<rparr>"
    by (subst st1) simp
  have tsc: "tsc_mem ?h2 = tsc_mem (mem st)"
    using copy_rules_spec [OF ps] cp by simp
  show ?thesis
    unfolding st2
    using query_frame [OF assms(1) ext] rulesFrom_extends [OF assms(1) ext] tsc
    by (simp add: getRules_def)
qed

lemma builtin_generator_frame: "heap_extends h (outcome_heap (builtin_generator h r))"
  by (simp add: builtin_generator_def NewTrafficShapingController_def heap_extends_def)

lemma registry_frame_init: "registry_frame init_tcGenFuncMap"
  by (auto simp add: registry_frame_def init_tcGenFuncMap_def builtin_generator_frame
      split: if_splits)

lemma registry_frame_update:
  "registry_frame reg \<Longrightarrow> (\<And>h r. heap_extends h (outcome_heap (g h r))) \<Longrightarrow>
   registry_frame (reg(k \<mapsto> g))"
  by (simp add: registry_frame_def)

lemma loaded_state_frame: "registry_frame (tcGenFuncMap loaded_state)"
  unfolding loaded_state_def
  by (simp add: registry_frame_update registry_frame_init panicking_generator_def heap_extends_refl)

lemma loaded_state_allocated: "map_allocated (mem loaded_state) (tcMap loaded_state)"
  by (simp add: loaded_state_def map_allocated_def controllers_def example_heap_def)

lemmas example_defs =
  loaded_state_def example_state_def example_heap_def rule_abc_def rule_warm_def rule_custom_def
  init_tcGenFuncMap_def panicking_generator_def shared_generator_def
  Direct_def WarmUp_def Reject_def Throttling_def CurrentResource_def AssociatedResource_def

lemmas run_defs =
  LoadRules_def onRuleUpdate_def buildFlowMap_def elems_def go_append_def IsValidRule_def
  builtin_generator_def NewTrafficShapingController_def equalsTo_def rule_equiv_def
  rules_changed_def

lemma GetRules_result_loaded: "GetRules_result loaded_state = Inr {#rule_custom#}"
  by (simp add: GetRules_result_def GetRules_def getRules_def rulesFrom_def rules_of_tcs_def
      rule_values_def elems_def loaded_state_def example_heap_def)

theorem query_copy_isolation_witness:
  "GetRules loaded_state =
     Inr (Some [4], loaded_state\<lparr>mem := example_heap
            \<lparr>rule_next := 5, rule_mem := (rule_mem example_heap)(4 := rule_custom)\<rparr>\<rparr>) \<and>
   GetRules_result (loaded_state\<lparr>mem := example_heap
            \<lparr>rule_next := 5, rule_mem := (rule_mem example_heap)(4 := rule_abc)\<rparr>\<rparr>)
     = Inr {#rule_custom#}"
proof -
  let ?st1 = "loaded_state\<lparr>mem := example_heap
            \<lparr>rule_next := 5, rule_mem := (rule_mem example_heap)(4 := rule_custom)\<rparr>\<rparr>"
  have g: "GetRules loaded_state = Inr (Some [4], ?st1)"
    by (simp add: GetRules_def getRules_def rulesFrom_def rules_of_tcs_def loaded_state_def
        example_heap_def)
  have rm: "\<forall>a. a \<notin> set (elems (Some [4::nat])) \<longrightarrow>
              ((rule_mem (mem ?st1))(4 := rule_abc)) a = rule_mem (mem ?st1) a"
    by (simp add: elems_def)
  have "GetRules_result (?st1\<lparr>mem := (mem ?st1)\<lparr>rule_mem := (rule_mem (mem ?st1))(4 := rule_abc)\<rparr>\<rparr>)
          = GetRules_result loaded_state"
    using query_copy_isolation [OF loaded_state_allocated disjI1 [OF g] rm] by blast
  then have "GetRules_result (loaded_state\<lparr>mem := example_heap
            \<lparr>rule_next := 5, rule_mem := (rule_mem example_heap)(4 := rule_abc)\<rparr>\<rparr>)
     = Inr {#rule_custom#}"
    by (simp add: GetRules_result_loaded)
  then show ?thesis using g by simp
qed

text \<open>
  By contrast the internal \<open>getRules\<close> returns the live pointers: a write through
  one of them is seen by the next GetRules.
\<close>

lemma getRules_returns_live_pointers:
  "getRules loaded_state = [3] \<and>
   GetRules_result loaded_state = Inr {#rule_custom#} \<and>
   GetRules_result (loaded_state\<lparr>mem := example_heap\<lparr>rule_mem := (rule_mem example_heap)(3 := rule_abc)\<rparr>\<rparr>)
     = Inr {#rule_abc#}"
  by (simp add: GetRules_result_def GetRules_def getRules_def rulesFrom_def rules_of_tcs_def
      rule_values_def elems_def loaded_state_def example_heap_def)

subsection \<open>A panic during reconciliation\<close>

lemma buildFlowMap_step_frame:
  assumes "registry_frame reg"
  shows "heap_extends h (result_heap (buildFlowMap_step reg (m, failedRules, h) r))"
proof (cases r)
  case None
  then show ?thesis by (simp add: result_heap_def heap_extends_refl)
next
  case (Some a)
  have gen: "\<And>g. reg (TokenCalculateStrategy (rule_mem h a), ControlBehavior (rule_mem h a)) = Some g
      \<Longrightarrow> heap_extends h (outcome_heap (g h a))"
    using assms by (simp add: registry_frame_def)
  show ?thesis
    unfolding Some
    by (auto simp add: result_heap_def heap_extends_refl
        split: option.splits sum.splits gen_outcome.splits dest!: gen)
qed

lemma buildFlowMap_loop_frame:
  assumes "registry_frame reg"
  shows "heap_extends (snd (snd s)) (result_heap (buildFlowMap_loop reg rules s))"
proof (induction rules arbitrary: s)
  case Nil
  then show ?case by (cases s) (simp add: result_heap_def heap_extends_refl)
next
  case (Cons r rules)
  obtain m f h where s: "s = (m, f, h)" by (cases s)
  have step: "heap_extends h (result_heap (buildFlowMap_step reg (m, f, h) r))"
    by (rule buildFlowMap_step_frame [OF assms])
  show ?case
  proof (cases "buildFlowMap_step reg (m, f, h) r")
    case (Inl p)
    then show ?thesis using step s by (simp add: result_heap_def)
  next
    case (Inr s')
    have "heap_extends h (snd (snd s'))"
      using step Inr by (cases s') (simp add: result_heap_def)
    then show ?thesis
      using Cons.IH [of s'] Inr s by (auto intro: heap_extends_trans)
  qed
qed

lemma buildFlowMap_frame:
  assumes "registry_frame reg"
  shows "heap_extends h (result_heap (buildFlowMap reg h rules))"
  using buildFlowMap_loop_frame [OF assms, of "([], None, h)" "elems rules"]
  by (simp add: buildFlowMap_def result_heap_def heap_extends_refl)



subsection \<open>Change detection\<close>

lemma rule_equiv_eq: "rule_equiv a b \<longleftrightarrow> a = b"
  by (cases a, cases b) (auto simp add: rule_equiv_def)

lemma tc_values_Nil [simp]: "tc_values h [] = []"
  by (simp add: tc_values_def rules_of_tcs_def)

lemma tc_values_Cons:
  "rule (tsc_mem h tc) = Some p \<Longrightarrow> tc_values h (tc # tcs) = rule_mem h p # tc_values h tcs"
  by (simp add: tc_values_def rules_of_tcs_def)

lemma rules_present_Cons:
  "rules_present h (tc # tcs) \<longleftrightarrow> (\<exists>p. rule (tsc_mem h tc) = Some p) \<and> rules_present h tcs"
  by (auto simp add: rules_present_def)

lemma length_tc_values: "rules_present h tcs \<Longrightarrow> length (tc_values h tcs) = length tcs"
  by (induction tcs) (auto simp add: rules_present_Cons tc_values_Cons)

lemma tc_values_nth:
  "rules_present h tcs \<Longrightarrow> i < length tcs \<Longrightarrow>
   rule (tsc_mem h (tcs ! i)) = Some p \<Longrightarrow> tc_values h tcs ! i = rule_mem h p"
proof (induction tcs arbitrary: i)
  case Nil
  then show ?case by simp
next
  case (Cons tc tcs)
  then show ?case
    by (cases i) (auto simp add: rules_present_Cons tc_values_Cons)
qed

lemma no_equivalent_rules_distinct:
  assumes "rules_present h tcs"
  shows "no_equivalent_rules h tcs \<longleftrightarrow> distinct (tc_values h tcs)"
proof -
  have len: "length (tc_values h tcs) = length tcs" by (rule length_tc_values [OF assms])
  have eq: "equalsTo h (rule (tsc_mem h (tcs ! i))) (rule (tsc_mem h (tcs ! j)))
              = Inr (tc_values h tcs ! i = tc_values h tcs ! j)"
    if lt: "i < length tcs" "j < length tcs" for i j
  proof -
    obtain p where p: "rule (tsc_mem h (tcs ! i)) = Some p"
      using assms nth_mem [OF lt(1)] by (auto simp add: rules_present_def)
    obtain q where q: "rule (tsc_mem h (tcs ! j)) = Some q"
      using assms nth_mem [OF lt(2)] by (auto simp add: rules_present_def)
    show ?thesis
      using p q tc_values_nth [OF assms lt(1) p] tc_values_nth [OF assms lt(2) q]
      by (simp add: equalsTo_def rule_equiv_eq)
  qed
  show ?thesis
  proof
    assume ne: "no_equivalent_rules h tcs"
    show "distinct (tc_values h tcs)"
      unfolding distinct_conv_nth len
    proof (intro allI impI)
      fix i j assume ij: "i < length tcs" "j < length tcs" "i \<noteq> j"
      show "tc_values h tcs ! i \<noteq> tc_values h tcs ! j"
      proof (cases "i < j")
        case True
        then have "equalsTo h (rule (tsc_mem h (tcs ! i))) (rule (tsc_mem h (tcs ! j))) = Inr False"
          using ne ij by (simp add: no_equivalent_rules_def)
        then show ?thesis using eq [OF ij(1) ij(2)] by simp
      next
        case False
        then have "j < i" using ij(3) by simp
        then have "equalsTo h (rule (tsc_mem h (tcs ! j))) (rule (tsc_mem h (tcs ! i))) = Inr False"
          using ne ij by (simp add: no_equivalent_rules_def)
        then show ?thesis using eq [OF ij(2) ij(1)] by auto
      qed
    qed
  next
    assume d: "distinct (tc_values h tcs)"
    show "no_equivalent_rules h tcs"
      unfolding no_equivalent_rules_def
    proof (intro allI impI)
      fix i j assume ij: "i < j \<and> j < length tcs"
      then have "tc_values h tcs ! i \<noteq> tc_values h tcs ! j"
        using d len by (simp add: distinct_conv_nth)
      then show "equalsTo h (rule (tsc_mem h (tcs ! i))) (rule (tsc_mem h (tcs ! j))) = Inr False"
        using eq [of i j] ij by simp
    qed
  qed
qed

lemma has_match_spec:
  "rules_present h mTcs \<Longrightarrow> rule (tsc_mem h tc) = Some p \<Longrightarrow>
   has_match h tc mTcs = Inr (rule_mem h p \<in> set (tc_values h mTcs))"
proof (induction mTcs)
  case Nil
  then show ?case by simp
next
  case (Cons mTc mTcs)
  then obtain q where q: "rule (tsc_mem h mTc) = Some q" and rest: "rules_present h mTcs"
    by (auto simp add: rules_present_Cons)
  show ?case
    using Cons.IH [OF rest Cons.prems(2)] q Cons.prems(2)
    by (simp add: equalsTo_def rule_equiv_eq tc_values_Cons)
qed

lemma count_matches_spec:
  "rules_present h tcs \<Longrightarrow> rules_present h mTcs \<Longrightarrow>
   count_matches h tcs mTcs
     = Inr (length (filter (\<lambda>v. v \<in> set (tc_values h mTcs)) (tc_values h tcs)))"
proof (induction tcs)
  case Nil
  then show ?case by simp
next
  case (Cons tc tcs)
  then obtain p where p: "rule (tsc_mem h tc) = Some p" and rest: "rules_present h tcs"
    by (auto simp add: rules_present_Cons)
  show ?case
    using Cons.IH [OF rest Cons.prems(2)] has_match_spec [OF Cons.prems(2) p] p
    by (simp add: tc_values_Cons)
qed

lemma filter_length_less: "length (filter P xs) < length xs \<longleftrightarrow> (\<exists>x \<in> set xs. \<not> P x)"
proof (induction xs)
  case Nil
  then show ?case by simp
next
  case (Cons x xs)
  have "length (filter P xs) \<le> length xs" by simp
  then show ?case using Cons by (auto simp add: less_Suc_eq_le)
qed

lemma diff_loop_spec:
  assumes "\<forall>tcs \<in> snd ` set m. rules_present h tcs"
  shows "\<forall>tcs \<in> snd ` set cur. rules_present h tcs \<Longrightarrow>
         diff_loop h cur m = Inr (\<exists>e \<in> set cur. entry_differs h m e)"
proof (induction cur)
  case Nil
  then show ?case by simp
next
  case (Cons x cur)
  obtain res tcs where x: "x = (res, tcs)" by (cases x)
  have tcs: "rules_present h tcs" using Cons.prems x by simp
  have IH: "diff_loop h cur m = Inr (\<exists>e \<in> set cur. entry_differs h m e)"
    using Cons by simp
  show ?case
  proof (cases "map_of m res")
    case None
    then show ?thesis using x by (simp add: entry_differs_def)
  next
    case (Some mTcs)
    have "(res, mTcs) \<in> set m" using Some by (rule map_of_SomeD)
    then have mTcs: "rules_present h mTcs" using assms by force
    have cnt: "count_matches h tcs mTcs
       = Inr (length (filter (\<lambda>v. v \<in> set (tc_values h mTcs)) (tc_values h tcs)))"
      by (rule count_matches_spec [OF tcs mTcs])
    have lt: "length (filter (\<lambda>v. v \<in> set (tc_values h mTcs)) (tc_values h tcs)) < length tcs
          \<longleftrightarrow> \<not> set (tc_values h tcs) \<subseteq> set (tc_values h mTcs)"
      using filter_length_less [of "\<lambda>v. v \<in> set (tc_values h mTcs)" "tc_values h tcs"]
        length_tc_values [OF tcs] by auto
    show ?thesis
      using x Some cnt lt IH by (auto simp add: entry_differs_def)
  qed
qed


lemma tcs_of_member:
  "distinct (map fst m) \<Longrightarrow> (res, tcs) \<in> set m \<Longrightarrow> tcs_of m res = tcs"
  by (simp add: tcs_of_def)

lemma tcs_of_absent: "res \<notin> fst ` set m \<Longrightarrow> tcs_of m res = []"
  by (simp add: tcs_of_def map_of_eq_None_iff [THEN iffD2])

lemma deduplicated_entry:
  assumes "deduplicated h m" "(res, tcs) \<in> set m"
  shows "rules_present h tcs" "distinct (tc_values h tcs)" "length (tc_values h tcs) = length tcs"
proof -
  have "tcs \<in> snd ` set m" using assms(2) by force
  then have a: "rules_present h tcs" and b: "no_equivalent_rules h tcs"
    using assms(1) by (auto simp add: deduplicated_def)
  show "rules_present h tcs" by (rule a)
  show "distinct (tc_values h tcs)" using no_equivalent_rules_distinct [OF a] b by simp
  show "length (tc_values h tcs) = length tcs" by (rule length_tc_values [OF a])
qed

lemma rules_changed_spec:
  assumes "deduplicated h cur" "deduplicated h m"
  shows "rules_changed h cur m =
         Inr (\<not> (set (map fst cur) = set (map fst m) \<and>
                 (\<forall>res. set (tc_values h (tcs_of cur res)) = set (tc_values h (tcs_of m res)))))"
proof -
  let ?same = "set (map fst cur) = set (map fst m) \<and>
               (\<forall>res. set (tc_values h (tcs_of cur res)) = set (tc_values h (tcs_of m res)))"
  have dc: "distinct (map fst cur)" and dm: "distinct (map fst m)"
    using assms by (simp_all add: deduplicated_def)
  have pc: "\<forall>tcs \<in> snd ` set cur. rules_present h tcs"
    and pm: "\<forall>tcs \<in> snd ` set m. rules_present h tcs"
    using assms by (simp_all add: deduplicated_def)
  have loop: "diff_loop h cur m = Inr (\<exists>e \<in> set cur. entry_differs h m e)"
    by (rule diff_loop_spec [OF pm pc])
  have lc: "length cur = card (set (map fst cur))"
    using distinct_card [OF dc] by simp
  have lm: "length m = card (set (map fst m))"
    using distinct_card [OF dm] by simp
  have "(length cur = length m \<and> \<not> (\<exists>e \<in> set cur. entry_differs h m e)) \<longleftrightarrow> ?same"
  proof
    assume a: "length cur = length m \<and> \<not> (\<exists>e \<in> set cur. entry_differs h m e)"
    have entry: "\<exists>mTcs. (res, mTcs) \<in> set m \<and> length tcs = length mTcs \<and>
                   set (tc_values h tcs) \<subseteq> set (tc_values h mTcs)"
      if "(res, tcs) \<in> set cur" for res tcs
    proof -
      have "\<not> entry_differs h m (res, tcs)" using a that by blast
      then obtain mTcs where "map_of m res = Some mTcs" "length tcs = length mTcs"
        "set (tc_values h tcs) \<subseteq> set (tc_values h mTcs)"
        by (auto simp add: entry_differs_def split: option.splits)
      then show ?thesis using map_of_SomeD by fast
    qed
    have sub: "set (map fst cur) \<subseteq> set (map fst m)"
    proof
      fix res assume "res \<in> set (map fst cur)"
      then obtain tcs where "(res, tcs) \<in> set cur" by auto
      then obtain mTcs where "(res, mTcs) \<in> set m" using entry by blast
      then show "res \<in> set (map fst m)" by force
    qed
    have "card (set (map fst m)) \<le> card (set (map fst cur))" using a lc lm by simp
    then have keys: "set (map fst cur) = set (map fst m)"
      using sub by (intro card_seteq) simp_all
    have vals: "set (tc_values h (tcs_of cur res)) = set (tc_values h (tcs_of m res))" for res
    proof (cases "res \<in> fst ` set cur")
      case False
      then have "res \<notin> fst ` set m" using keys by simp
      then show ?thesis using False by (simp add: tcs_of_absent)
    next
      case True
      then obtain tcs where tcs: "(res, tcs) \<in> set cur" by auto
      then obtain mTcs where mTcs: "(res, mTcs) \<in> set m" "length tcs = length mTcs"
        "set (tc_values h tcs) \<subseteq> set (tc_values h mTcs)"
        using entry by blast
      have "card (set (tc_values h tcs)) = length tcs"
        using deduplicated_entry [OF assms(1) tcs] by (simp add: distinct_card)
      moreover have "card (set (tc_values h mTcs)) \<le> length mTcs"
        using deduplicated_entry(3) [OF assms(2) mTcs(1)] card_length [of "tc_values h mTcs"] by simp
      ultimately have "card (set (tc_values h mTcs)) \<le> card (set (tc_values h tcs))"
        using mTcs(2) by simp
      then have "set (tc_values h tcs) = set (tc_values h mTcs)"
        using mTcs(3) by (intro card_seteq) simp_all
      then show ?thesis
        using tcs_of_member [OF dc tcs] tcs_of_member [OF dm mTcs(1)] by simp
    qed
    show ?same using keys vals by blast
  next
    assume s: ?same
    have len: "length cur = length m" using s lc lm by simp
    have "\<not> entry_differs h m e" if e: "e \<in> set cur" for e
    proof -
      obtain res tcs where rt: "e = (res, tcs)" by (cases e)
      have "res \<in> set (map fst m)" using s e rt by force
      then obtain mTcs where mTcs: "(res, mTcs) \<in> set m" by auto
      have mo: "map_of m res = Some mTcs" using dm mTcs by simp
      have tcs: "(res, tcs) \<in> set cur" using e rt by simp
      have eq: "set (tc_values h tcs) = set (tc_values h mTcs)"
        using s tcs_of_member [OF dc tcs] tcs_of_member [OF dm mTcs] by metis
      have "length tcs = card (set (tc_values h tcs))"
        using deduplicated_entry [OF assms(1) tcs] by (simp add: distinct_card)
      moreover have "length mTcs = card (set (tc_values h mTcs))"
        using deduplicated_entry [OF assms(2) mTcs] by (simp add: distinct_card)
      ultimately have "length tcs = length mTcs" using eq by simp
      then show ?thesis using rt mo eq by (simp add: entry_differs_def)
    qed
    then show "length cur = length m \<and> \<not> (\<exists>e \<in> set cur. entry_differs h m e)"
      using len by blast
  qed
  then show ?thesis
    unfolding rules_changed_def loop by auto
qed

text \<open>
  C2. Let the current map and the candidate map have distinct keys and, in every list,
  controllers whose rules are present and pairwise not equivalent. Then the change
  detection returns without a panic, and \<open>ret\<close> is false if and only if both maps
  hold the same resources and, for each resource, the same set of rule values. The order
  of the lists and of the entries plays no part.
\<close>

theorem rules_changed_iff_sets_differ:
  assumes "deduplicated h cur" "deduplicated h m"
  shows "rules_changed h cur m =
         Inr (\<not> (set (map fst cur) = set (map fst m) \<and>
                 (\<forall>res. set (tc_values h (tcs_of cur res)) = set (tc_values h (tcs_of m res)))))"
  by (rule rules_changed_spec [OF assms])

lemma deduplicated_single:
  "rule (tsc_mem h tc) \<noteq> None \<Longrightarrow> deduplicated h [(res, [tc])]"
  by (simp add: deduplicated_def rules_present_def no_equivalent_rules_def)

theorem rules_changed_iff_sets_differ_witness:
  "rules_changed example_heap [(''test-customized-tc'', [0])] [(''test-customized-tc'', [5])] = Inr False \<and>
   rules_changed example_heap [(''test-customized-tc'', [0])] [(''abc'', [5])] = Inr True"
proof -
  have d0: "deduplicated example_heap [(''test-customized-tc'', [0])]"
    and d5: "deduplicated example_heap [(''test-customized-tc'', [5])]"
    and da: "deduplicated example_heap [(''abc'', [5])]"
    by (simp_all add: deduplicated_single example_heap_def)
  show ?thesis
    using rules_changed_iff_sets_differ [OF d0 d5] rules_changed_iff_sets_differ [OF d0 da]
    by (simp add: tcs_of_def tc_values_def rules_of_tcs_def example_heap_def)
qed

subsection \<open>buildFlowMap over a registry of factories\<close>

lemma first_seen_Nil [simp]: "first_seen [] = []"
  by (simp add: first_seen_def)

lemma first_seen_snoc:
  "first_seen (xs @ [x]) = (if x \<in> set xs then first_seen xs else first_seen xs @ [x])"
  by (simp add: first_seen_def)

lemma set_first_seen [simp]: "set (first_seen xs) = set xs"
  by (simp add: first_seen_def)

lemma distinct_first_seen [simp]: "distinct (first_seen xs)"
  by (simp add: first_seen_def)

lemma non_nil_simps [simp]:
  "non_nil [] = []" "non_nil (None # ps) = non_nil ps" "non_nil (Some x # ps) = x # non_nil ps"
  by (simp_all add: non_nil_def)

lemma non_nil_append [simp]: "non_nil (ps @ qs) = non_nil ps @ non_nil qs"
  by (simp add: non_nil_def)

lemma set_non_nil: "x \<in> set (non_nil ps) \<longleftrightarrow> Some x \<in> set ps"
  by (induction ps) (auto simp add: non_nil_def split: option.splits)

lemma kinds_exclusive:
  "(accepted K v \<or> rejected K v \<or> gen_panics K v) \<and>
   \<not> (accepted K v \<and> rejected K v) \<and> \<not> (accepted K v \<and> gen_panics K v) \<and>
   \<not> (rejected K v \<and> gen_panics K v)"
proof (cases "gen_kind_of K v")
  case None
  then show ?thesis by (auto simp add: accepted_def rejected_def gen_panics_def)
next
  case (Some k)
  then show ?thesis by (cases k) (auto simp add: accepted_def rejected_def gen_panics_def)
qed

lemma is_duplicate_spec:
  "rules_present h tcs \<Longrightarrow> is_duplicate h r tcs = Inr (rule_mem h r \<in> set (tc_values h tcs))"
proof (induction tcs)
  case Nil
  then show ?case by simp
next
  case (Cons tc tcs)
  then obtain q where q: "rule (tsc_mem h tc) = Some q" and rest: "rules_present h tcs"
    by (auto simp add: rules_present_Cons)
  show ?case
    using Cons.IH [OF rest] q by (auto simp add: equalsTo_def rule_equiv_eq tc_values_Cons)
qed

lemma tc_values_cong:
  "rule_mem h' = rule_mem h \<Longrightarrow> \<forall>tc \<in> set tcs. tsc_mem h' tc = tsc_mem h tc \<Longrightarrow>
   tc_values h' tcs = tc_values h tcs"
  using rules_of_tcs_cong [of tcs h' h] by (simp add: tc_values_def)

lemma tc_values_append: "tc_values h (xs @ ys) = tc_values h xs @ tc_values h ys"
  by (simp add: tc_values_def rules_of_tcs_def)

lemma tcs_of_update: "tcs_of (AList.update k v m) res = (if res = k then v else tcs_of m res)"
  by (simp add: tcs_of_def update_conv')


lemma accepted_values_snoc_None [simp]:
  "accepted_values K h (pre @ [None]) res = accepted_values K h pre res"
  by (simp add: accepted_values_def)

lemma accepted_values_snoc_Some:
  "accepted_values K h (pre @ [Some r]) res =
     accepted_values K h pre res @
       (if accepted K (rule_mem h r) \<and> Resource (rule_mem h r) = res then [rule_mem h r] else [])"
  by (simp add: accepted_values_def)

lemma mem_accepted_values:
  "v \<in> set (accepted_values K h pre res) \<Longrightarrow> accepted K v \<and> Resource v = res"
  by (simp add: accepted_values_def)

lemma new_controllers_mono:
  "new_controllers h0 h pre m \<Longrightarrow> new_controllers h0 h (pre @ [x]) m"
  unfolding new_controllers_def by auto

lemma build_inv_skip_None:
  "build_inv K h0 pre (m, f, h) \<Longrightarrow> build_inv K h0 (pre @ [None]) (m, f, h)"
  by (simp add: build_inv_def new_controllers_mono values_ok_def failed_ok_def)

lemma build_inv_skip_dup:
  assumes "build_inv K h0 pre (m, f, h)"
    and "rule_mem h0 r \<in> set (accepted_values K h0 pre (Resource (rule_mem h0 r)))"
  shows "build_inv K h0 (pre @ [Some r]) (m, f, h)"
proof -
  let ?v = "rule_mem h0 r"
  have acc: "accepted K ?v" using mem_accepted_values [OF assms(2)] by simp
  then have nrej: "\<not> rejected K ?v" using kinds_exclusive [of K ?v] by blast
  have vals: "first_seen (accepted_values K h0 (pre @ [Some r]) res)
                = first_seen (accepted_values K h0 pre res)" for res
    using assms(2) by (auto simp add: accepted_values_snoc_Some first_seen_snoc)
  show ?thesis
    using assms(1) nrej
    by (simp add: build_inv_def new_controllers_mono values_ok_def vals failed_ok_def)
qed

lemma build_inv_fail:
  assumes "build_inv K h0 pre (m, f, h)" and "rejected K (rule_mem h0 r)"
  shows "build_inv K h0 (pre @ [Some r]) (m, go_append f (Some r), h)"
proof -
  let ?v = "rule_mem h0 r"
  have nacc: "\<not> accepted K ?v" using assms(2) kinds_exclusive [of K ?v] by blast
  have vals: "accepted_values K h0 (pre @ [Some r]) res = accepted_values K h0 pre res" for res
    using nacc by (simp add: accepted_values_snoc_Some)
  show ?thesis
    using assms
    by (simp add: build_inv_def new_controllers_mono values_ok_def vals failed_ok_def
        go_append_def elems_def)
qed


lemma set_update_subset: "set (AList.update k v m) \<subseteq> insert (k, v) (set m)"
  by (induction m) auto

lemma controllers_update:
  "set (controllers (AList.update k v m)) \<subseteq> set v \<union> set (controllers m)"
  using set_update_subset [of k v m] by (fastforce simp add: controllers_def)

lemma tcs_of_controllers: "set (tcs_of m res) \<subseteq> set (controllers m)"
proof (cases "map_of m res")
  case None
  then show ?thesis by (simp add: tcs_of_def)
next
  case (Some tcs)
  then have "(res, tcs) \<in> set m" by (rule map_of_SomeD)
  then show ?thesis using Some by (force simp add: tcs_of_def controllers_def)
qed

lemma build_inv_new:
  assumes inv: "build_inv K h0 pre (m, f, h)"
    and acc: "accepted K (rule_mem h0 r)"
    and fresh: "rule_mem h0 r \<notin> set (accepted_values K h0 pre (Resource (rule_mem h0 r)))"
  shows "build_inv K h0 (pre @ [Some r])
           (AList.update (Resource (rule_mem h0 r))
              (tcs_of m (Resource (rule_mem h0 r)) @ [tsc_next h]) m,
            f,
            h\<lparr>tsc_mem := (tsc_mem h)(tsc_next h := \<lparr>rule = Some r\<rparr>),
              tsc_next := Suc (tsc_next h)\<rparr>)"
proof -
  let ?v = "rule_mem h0 r"
  let ?res = "Resource ?v"
  let ?h' = "h\<lparr>tsc_mem := (tsc_mem h)(tsc_next h := \<lparr>rule = Some r\<rparr>), tsc_next := Suc (tsc_next h)\<rparr>"
  let ?new = "tcs_of m ?res @ [tsc_next h]"
  let ?m' = "AList.update ?res ?new m"
  have hk: "heap_kept h0 h" and dk: "distinct (map fst m)" and ne: "[] \<notin> snd ` set m"
    and nc: "new_controllers h0 h pre m" and vo: "values_ok K h0 pre m h"
    and fo: "failed_ok K h0 pre f"
    using inv by (simp_all add: build_inv_def)
  have old: "tc < tsc_next h" if "tc \<in> set (controllers m)" for tc
    using nc that by (simp add: new_controllers_def)
  have same: "tsc_mem ?h' tc = tsc_mem h tc" if "tc \<in> set (controllers m)" for tc
    using old [OF that] by simp
  have c1: "heap_kept h0 ?h'"
    using hk by (auto simp add: heap_kept_def)
  have c2: "distinct (map fst ?m')"
    using dk by (rule distinct_update)
  have c3: "[] \<notin> snd ` set ?m'"
    using ne set_update_subset [of ?res ?new m] by force
  have c4: "new_controllers h0 ?h' (pre @ [Some r]) ?m'"
    unfolding new_controllers_def
  proof
    fix tc assume "tc \<in> set (controllers ?m')"
    then have "tc \<in> set ?new \<or> tc \<in> set (controllers m)"
      using controllers_update [of ?res ?new m] by blast
    then have "tc = tsc_next h \<or> tc \<in> set (controllers m)"
      using tcs_of_controllers [of m ?res] by auto
    then show "tsc_next h0 \<le> tc \<and> tc < tsc_next ?h' \<and>
               (\<exists>ra. rule (tsc_mem ?h' tc) = Some ra \<and> Some ra \<in> set (pre @ [Some r]))"
    proof
      assume "tc = tsc_next h"
      then show ?thesis using hk by (simp add: heap_kept_def)
    next
      assume tc: "tc \<in> set (controllers m)"
      then have "tsc_next h0 \<le> tc \<and> tc < tsc_next h \<and>
                 (\<exists>ra. rule (tsc_mem h tc) = Some ra \<and> Some ra \<in> set pre)"
        using nc by (simp add: new_controllers_def)
      then show ?thesis using same [OF tc] by auto
    qed
  qed
  have keep: "tc_values ?h' (tcs_of m res') = tc_values h (tcs_of m res')" for res'
  proof (rule tc_values_cong)
    show "rule_mem ?h' = rule_mem h" by simp
    show "\<forall>tc \<in> set (tcs_of m res'). tsc_mem ?h' tc = tsc_mem h tc"
      using same tcs_of_controllers [of m res'] by blast
  qed
  have last: "tc_values ?h' [tsc_next h] = [?v]"
    using hk by (simp add: tc_values_def rules_of_tcs_def heap_kept_def)
  have c5: "values_ok K h0 (pre @ [Some r]) ?m' ?h'"
    unfolding values_ok_def
  proof
    fix res'
    have old_vals: "tc_values h (tcs_of m res') = first_seen (accepted_values K h0 pre res')"
      using vo by (simp add: values_ok_def)
    show "tc_values ?h' (tcs_of ?m' res') = first_seen (accepted_values K h0 (pre @ [Some r]) res')"
    proof (cases "res' = ?res")
      case True
      have "tc_values ?h' (tcs_of ?m' res') = tc_values ?h' (tcs_of m ?res) @ tc_values ?h' [tsc_next h]"
        using True by (simp add: tcs_of_update tc_values_append)
      also have "\<dots> = first_seen (accepted_values K h0 pre ?res) @ [?v]"
        using keep [of ?res] old_vals True last by simp
      also have "\<dots> = first_seen (accepted_values K h0 (pre @ [Some r]) res')"
        using True acc fresh by (simp add: accepted_values_snoc_Some first_seen_snoc)
      finally show ?thesis .
    next
      case False
      then show ?thesis
        using keep [of res'] old_vals by (simp add: tcs_of_update accepted_values_snoc_Some)
    qed
  qed
  have nrej: "\<not> rejected K ?v" using acc kinds_exclusive [of K ?v] by blast
  have c6: "failed_ok K h0 (pre @ [Some r]) f"
    using fo nrej by (simp add: failed_ok_def)
  show ?thesis
    using c1 c2 c3 c4 c5 c6 by (simp add: build_inv_def)
qed


lemma tcs_of_snoc:
  "(case map_of m res of None \<Rightarrow> [tsc] | Some rulesOfRes \<Rightarrow> rulesOfRes @ [tsc]) = tcs_of m res @ [tsc]"
  by (simp add: tcs_of_def split: option.splits)

lemma dedup_scan_spec:
  assumes "build_inv K h0 pre (m, f, h)"
  shows "(case map_of m res of None \<Rightarrow> Inr False | Some rulesOfRes \<Rightarrow> is_duplicate h r rulesOfRes)
           = Inr (rule_mem h0 r \<in> set (accepted_values K h0 pre res))"
proof -
  have hk: "rule_mem h = rule_mem h0" and nc: "new_controllers h0 h pre m"
    and vo: "tc_values h (tcs_of m res) = first_seen (accepted_values K h0 pre res)"
    using assms by (simp_all add: build_inv_def heap_kept_def values_ok_def)
  have pres: "rules_present h (tcs_of m res)"
    using nc tcs_of_controllers [of m res]
    by (fastforce simp add: rules_present_def new_controllers_def)
  have "set (tc_values h (tcs_of m res)) = set (accepted_values K h0 pre res)"
    unfolding vo by simp
  then have "is_duplicate h r (tcs_of m res) = Inr (rule_mem h0 r \<in> set (accepted_values K h0 pre res))"
    using is_duplicate_spec [OF pres, of r] hk by simp
  then show ?thesis
    by (cases "map_of m res") (simp_all add: tcs_of_def)
qed

lemma buildFlowMap_step_conforming:
  assumes conf: "registry_conforms reg K" and inv: "build_inv K h0 pre (m, f, h)"
  shows "if gen_panics K (rule_mem h0 r)
         then (\<exists>e. buildFlowMap_step reg (m, f, h) (Some r) = Inl (e, h))
         else (\<exists>s'. buildFlowMap_step reg (m, f, h) (Some r) = Inr s' \<and>
                    build_inv K h0 (pre @ [Some r]) s')"
proof -
  let ?v = "rule_mem h0 r"
  let ?res = "Resource ?v"
  let ?key = "(TokenCalculateStrategy ?v, ControlBehavior ?v)"
  have hk: "rule_mem h = rule_mem h0"
    using inv by (simp add: build_inv_def heap_kept_def)
  have v: "rule_mem h r = ?v" using hk by simp
  note dup = dedup_scan_spec [OF inv, where res = ?res and r = r]
  show ?thesis
  proof (cases "IsValidRule (Some ?v)")
    case (Some err)
    then have rej: "rejected K ?v" by (simp add: rejected_def)
    then have np: "\<not> gen_panics K ?v" using kinds_exclusive [of K ?v] by blast
    have "buildFlowMap_step reg (m, f, h) (Some r) = Inr (m, go_append f (Some r), h)"
      using Some v by simp
    then show ?thesis using np build_inv_fail [OF inv rej] by simp
  next
    case None
    note valid = None
    show ?thesis
    proof (cases "?v \<in> set (accepted_values K h0 pre ?res)")
      case True
      then have "accepted K ?v" using mem_accepted_values by blast
      then have np: "\<not> gen_panics K ?v" using kinds_exclusive [of K ?v] by blast
      have "buildFlowMap_step reg (m, f, h) (Some r) = Inr (m, f, h)"
        using valid v dup True by simp
      then show ?thesis using np build_inv_skip_dup [OF inv True] by simp
    next
      case False
      note fresh = False
      have regk: "reg ?key = map_option constructor_like (K ?key)"
        using conf by (simp add: registry_conforms_def)
      show ?thesis
      proof (cases "K ?key")
        case None
        then have rej: "rejected K ?v" by (simp add: rejected_def gen_kind_of_def)
        then have np: "\<not> gen_panics K ?v" using kinds_exclusive [of K ?v] by blast
        have "buildFlowMap_step reg (m, f, h) (Some r) = Inr (m, go_append f (Some r), h)"
          using valid v dup fresh regk None by simp
        then show ?thesis using np build_inv_fail [OF inv rej] by simp
      next
        case (Some k)
        have gk: "gen_kind_of K ?v = Some (k ?v)" using Some by (simp add: gen_kind_of_def)
        have regk': "reg ?key = Some (constructor_like k)" using regk Some by simp
        show ?thesis
        proof (cases "k ?v")
          case (KPanic e)
          then have p: "gen_panics K ?v" using valid gk by (simp add: gen_panics_def)
          have "buildFlowMap_step reg (m, f, h) (Some r) = Inl (e, h)"
            using valid v dup fresh regk' KPanic by (simp add: constructor_like_def)
          then show ?thesis using p by simp
        next
          case KNil
          then have rej: "rejected K ?v" using gk by (simp add: rejected_def)
          then have np: "\<not> gen_panics K ?v" using kinds_exclusive [of K ?v] by blast
          have "buildFlowMap_step reg (m, f, h) (Some r) = Inr (m, go_append f (Some r), h)"
            using valid v dup fresh regk' KNil by (simp add: constructor_like_def)
          then show ?thesis using np build_inv_fail [OF inv rej] by simp
        next
          case KNew
          then have acc: "accepted K ?v" using valid gk by (simp add: accepted_def)
          then have np: "\<not> gen_panics K ?v" using kinds_exclusive [of K ?v] by blast
          have "buildFlowMap_step reg (m, f, h) (Some r) =
                  Inr (AList.update ?res (tcs_of m ?res @ [tsc_next h]) m, f,
                       h\<lparr>tsc_mem := (tsc_mem h)(tsc_next h := \<lparr>rule = Some r\<rparr>),
                         tsc_next := Suc (tsc_next h)\<rparr>)"
            using valid v dup fresh regk' KNew
            by (simp add: constructor_like_def builtin_generator_def NewTrafficShapingController_def
                tcs_of_snoc)
          then show ?thesis using np build_inv_new [OF inv acc fresh] by simp
        qed
      qed
    qed
  qed
qed


lemma buildFlowMap_loop_conforming:
  assumes conf: "registry_conforms reg K"
  shows "build_inv K h0 pre s \<Longrightarrow>
         (if \<exists>r. Some r \<in> set rules \<and> gen_panics K (rule_mem h0 r)
          then \<exists>e h'. buildFlowMap_loop reg rules s = Inl (e, h') \<and> heap_kept h0 h'
          else \<exists>s'. buildFlowMap_loop reg rules s = Inr s' \<and> build_inv K h0 (pre @ rules) s')"
proof (induction rules arbitrary: pre s)
  case Nil
  then show ?case by simp
next
  case (Cons x rules)
  obtain m f h where s: "s = (m, f, h)" by (cases s)
  have inv: "build_inv K h0 pre (m, f, h)" using Cons.prems s by simp
  have hk: "heap_kept h0 h" using inv by (simp add: build_inv_def)
  show ?case
  proof (cases x)
    case None
    have inv': "build_inv K h0 (pre @ [None]) (m, f, h)" by (rule build_inv_skip_None [OF inv])
    have app: "(pre @ [None]) @ rules = pre @ None # rules" by simp
    show ?thesis
      using Cons.IH [OF inv'] None s unfolding app by (auto split: if_splits)
  next
    case (Some r)
    have app: "(pre @ [Some r]) @ rules = pre @ Some r # rules" by simp
    note step = buildFlowMap_step_conforming [OF conf inv, of r]
    show ?thesis
    proof (cases "gen_panics K (rule_mem h0 r)")
      case True
      then obtain e where "buildFlowMap_step reg (m, f, h) (Some r) = Inl (e, h)"
        using step by auto
      then have "buildFlowMap_loop reg (x # rules) s = Inl (e, h)"
        using Some s by simp
      moreover have "\<exists>r. Some r \<in> set (x # rules) \<and> gen_panics K (rule_mem h0 r)"
        using True Some by auto
      ultimately show ?thesis using hk by auto
    next
      case False
      then obtain s' where s': "buildFlowMap_step reg (m, f, h) (Some r) = Inr s'"
        "build_inv K h0 (pre @ [Some r]) s'"
        using step by auto
      have run: "buildFlowMap_loop reg (x # rules) s = buildFlowMap_loop reg rules s'"
        using s'(1) Some s by simp
      have ex: "(\<exists>q. Some q \<in> set (x # rules) \<and> gen_panics K (rule_mem h0 q))
                  \<longleftrightarrow> (\<exists>q. Some q \<in> set rules \<and> gen_panics K (rule_mem h0 q))"
        using False Some by auto
      show ?thesis
        unfolding run ex using Cons.IH [OF s'(2)] Some unfolding app by (auto split: if_splits)
    qed
  qed
qed

lemma build_inv_init: "build_inv K h [] ([], None, h)"
  by (simp add: build_inv_def heap_kept_def new_controllers_def controllers_def values_ok_def
      failed_ok_def tcs_of_def accepted_values_def elems_def)

lemma buildFlowMap_conforming:
  assumes conf: "registry_conforms reg K"
  shows "if \<exists>r. Some r \<in> set (elems rules) \<and> gen_panics K (rule_mem h r)
         then \<exists>e h'. buildFlowMap reg h rules = Inl (e, h') \<and> heap_kept h h'
         else \<exists>s'. buildFlowMap reg h rules = Inr s' \<and> build_inv K h (elems rules) s'"
proof (cases "elems rules = []")
  case True
  then show ?thesis using build_inv_init [of K h] by (simp add: buildFlowMap_def)
next
  case False
  then show ?thesis
    using buildFlowMap_loop_conforming [OF conf build_inv_init [of K h], where rules = "elems rules"]
    by (auto simp add: buildFlowMap_def split: if_splits)
qed

lemma filter_non_nil:
  "map Some (filter P (non_nil ps)) = filter (\<lambda>p. case p of None \<Rightarrow> False | Some r \<Rightarrow> P r) ps"
  by (induction ps) (auto split: option.splits)

lemma build_inv_present:
  assumes "build_inv K h0 pre (m, f, h)" "tcs \<in> snd ` set m"
  shows "rules_present h tcs"
proof -
  have "set tcs \<subseteq> set (controllers m)" using assms(2) by (auto simp add: controllers_def)
  then show ?thesis
    using assms(1) by (fastforce simp add: build_inv_def new_controllers_def rules_present_def)
qed

lemma build_inv_deduplicated:
  assumes "build_inv K h0 pre (m, f, h)"
  shows "deduplicated h m"
  unfolding deduplicated_def
proof (intro conjI ballI)
  show dk: "distinct (map fst m)" using assms by (simp add: build_inv_def)
  fix tcs assume t: "tcs \<in> snd ` set m"
  show pres: "rules_present h tcs" by (rule build_inv_present [OF assms t])
  obtain res where "(res, tcs) \<in> set m" using t by auto
  then have "tcs_of m res = tcs" using dk by (simp add: tcs_of_member)
  then have "tc_values h tcs = first_seen (accepted_values K h0 pre res)"
    using assms by (auto simp add: build_inv_def values_ok_def)
  then show "no_equivalent_rules h tcs"
    using no_equivalent_rules_distinct [OF pres] by simp
qed


lemma builtin_constructor_like: "builtin_generator = constructor_like (\<lambda>v. KNew)"
  by (intro ext) (simp add: constructor_like_def)

lemma panicking_constructor_like:
  "panicking_generator = constructor_like (\<lambda>v. KPanic ''generator failed'')"
  by (intro ext) (simp add: constructor_like_def panicking_generator_def)

lemma init_conforms: "registry_conforms init_tcGenFuncMap init_kinds"
  by (simp add: registry_conforms_def init_tcGenFuncMap_def init_kinds_def builtin_constructor_like)

lemma loaded_conforms: "registry_conforms (tcGenFuncMap loaded_state) loaded_kinds"
  using init_conforms
  by (simp add: registry_conforms_def loaded_state_def loaded_kinds_def panicking_constructor_like)

lemmas kind_defs =
  gen_panics_def rejected_def accepted_def gen_kind_of_def init_kinds_def loaded_kinds_def


subsection \<open>LoadRules: deduplication and replacement\<close>

lemma LoadRules_success:
  assumes "LoadRules st rules = ((ret, None, failedRules), st')"
  shows "buildFlowMap (tcGenFuncMap st) (mem st) rules = Inr (tcMap st', failedRules, mem st') \<and>
         rules_changed (mem st') (tcMap st) (tcMap st') = Inr ret \<and>
         st' = st\<lparr>mem := mem st', tcMap := tcMap st'\<rparr>"
  using assms
  by (auto simp add: LoadRules_def onRuleUpdate_def split: sum.splits prod.splits)

lemma LoadRules_success_inv:
  assumes conf: "registry_conforms (tcGenFuncMap st) K"
    and run: "LoadRules st rules = ((ret, None, failedRules), st')"
  shows "build_inv K (mem st) (elems rules) (tcMap st', failedRules, mem st')"
proof -
  have b: "buildFlowMap (tcGenFuncMap st) (mem st) rules = Inr (tcMap st', failedRules, mem st')"
    using LoadRules_success [OF run] by simp
  show ?thesis
    using buildFlowMap_conforming [OF conf, of rules "mem st"] b
    by (auto split: if_splits)
qed



lemma example_state_conforms: "registry_conforms (tcGenFuncMap example_state) init_kinds"
  by (simp add: example_state_def init_conforms)


text \<open>
  C9, as the code has it. A LoadRules that returns no error installs the candidate map
  that buildFlowMap built in this call, whatever \<open>ret\<close> is. The controllers in it
  are the ones the generators returned: over a registry of factories (as the built-in
  generators are) every one of them is newly built, so none is a controller of the
  previous effective map.
\<close>

theorem LoadRules_installs_candidate:
  assumes "LoadRules st rules = ((ret, None, failedRules), st')"
  shows "buildFlowMap (tcGenFuncMap st) (mem st) rules = Inr (tcMap st', failedRules, mem st') \<and>
         (registry_conforms (tcGenFuncMap st) K \<longrightarrow>
            (\<forall>tc \<in> set (controllers (tcMap st')).
                tsc_next (mem st) \<le> tc \<and> tc < tsc_next (mem st')) \<and>
            (map_allocated (mem st) (tcMap st) \<longrightarrow>
               set (controllers (tcMap st')) \<inter> set (controllers (tcMap st)) = {}))"
proof (intro conjI impI)
  show "buildFlowMap (tcGenFuncMap st) (mem st) rules = Inr (tcMap st', failedRules, mem st')"
    using LoadRules_success [OF assms] by simp
next
  assume conf: "registry_conforms (tcGenFuncMap st) K"
  have "build_inv K (mem st) (elems rules) (tcMap st', failedRules, mem st')"
    by (rule LoadRules_success_inv [OF conf assms])
  then have nc: "new_controllers (mem st) (mem st') (elems rules) (tcMap st')"
    by (simp add: build_inv_def)
  then show new: "\<forall>tc \<in> set (controllers (tcMap st')).
                tsc_next (mem st) \<le> tc \<and> tc < tsc_next (mem st')"
    by (simp add: new_controllers_def)
  assume "map_allocated (mem st) (tcMap st)"
  then have "\<forall>tc \<in> set (controllers (tcMap st)). tc < tsc_next (mem st)"
    by (simp add: map_allocated_def)
  then show "set (controllers (tcMap st')) \<inter> set (controllers (tcMap st)) = {}"
    using new by fastforce
qed

lemmas query_defs = GetRules_def getRules_def rulesFrom_def rules_of_tcs_def

theorem LoadRules_installs_candidate_witness:
  "tcMap (snd (LoadRules example_state (Some [Some 0]))) = [(''abc'', [1])] \<and>
   fst (LoadRules (snd (LoadRules example_state (Some [Some 0]))) (Some [Some 0]))
     = (False, None, None) \<and>
   tcMap (snd (LoadRules (snd (LoadRules example_state (Some [Some 0]))) (Some [Some 0])))
     = [(''abc'', [2])]"
proof -
  let ?s1 = "snd (LoadRules example_state (Some [Some 0]))"
  let ?r2 = "LoadRules ?s1 (Some [Some 0])"
  have s1: "?s1 = example_state\<lparr>mem := example_heap\<lparr>tsc_mem := (tsc_mem example_heap)(1 := \<lparr>rule = Some 0\<rparr>),
                                   tsc_next := 2\<rparr>, tcMap := [(''abc'', [1])]\<rparr>"
    by (simp add: run_defs example_defs numeral_2_eq_2)
  have r2: "fst ?r2 = (False, None, None)" "tcMap (snd ?r2) = [(''abc'', [2])]"
    unfolding s1 by (simp_all add: run_defs example_defs has_match.simps)
  have eq: "?r2 = ((False, None, None), snd ?r2)"
    using r2(1) by (simp add: prod_eq_iff)
  have conf: "registry_conforms (tcGenFuncMap ?s1) init_kinds"
    unfolding s1 using example_state_conforms by simp
  have al: "map_allocated (mem ?s1) (tcMap ?s1)"
    unfolding s1 by (simp add: map_allocated_def controllers_def example_defs)
  have "set (controllers (tcMap (snd ?r2))) \<inter> set (controllers (tcMap ?s1)) = {}"
    using LoadRules_installs_candidate [OF eq, of init_kinds] conf al by blast
  then show ?thesis using r2 s1 by simp
qed

text \<open>
  The claim C9 as worded, that the lists never consist of the previously stored
  controllers, fails for a custom generator that hands out a controller it keeps (the
  pattern of TestSetAndRemoveTrafficShapingGenerator): reloading the same rule returns
  \<open>changed = false\<close> and the list again holds the controller at 0.
\<close>

theorem LoadRules_shared_controller_counterexample:
  "tcMap (snd (LoadRules shared_state (Some [Some 3]))) = [(''test-customized-tc'', [0])] \<and>
   fst (LoadRules (snd (LoadRules shared_state (Some [Some 3]))) (Some [Some 3]))
     = (False, None, None) \<and>
   tcMap (snd (LoadRules (snd (LoadRules shared_state (Some [Some 3]))) (Some [Some 3])))
     = [(''test-customized-tc'', [0])]"
proof -
  let ?s1 = "snd (LoadRules shared_state (Some [Some 3]))"
  have s1: "?s1 = shared_state\<lparr>tcMap := [(''test-customized-tc'', [0])]\<rparr>"
    by (simp add: run_defs example_defs shared_state_def)
  show ?thesis
    unfolding s1 by (simp add: run_defs example_defs shared_state_def)
qed

subsection \<open>LoadRules twice\<close>

lemma rules_changed_total:
  assumes "\<forall>tcs \<in> snd ` set cur. rules_present h tcs" "\<forall>tcs \<in> snd ` set m. rules_present h tcs"
  shows "\<exists>b. rules_changed h cur m = Inr b"
  using diff_loop_spec [OF assms(2) assms(1)] by (auto simp add: rules_changed_def)

lemma heap_kept_extends: "heap_kept h h' \<Longrightarrow> heap_extends h h'"
  by (simp add: heap_kept_def heap_extends_def)

lemma heap_kept_trans: "heap_kept h1 h2 \<Longrightarrow> heap_kept h2 h3 \<Longrightarrow> heap_kept h1 h3"
  by (auto simp add: heap_kept_def)

lemma rules_present_cong:
  "\<forall>tc \<in> set tcs. tsc_mem h' tc = tsc_mem h tc \<Longrightarrow> rules_present h' tcs = rules_present h tcs"
  by (simp add: rules_present_def)

lemma present_kept:
  assumes "map_allocated h m" "heap_kept h h'" "\<forall>tcs \<in> snd ` set m. rules_present h tcs"
  shows "\<forall>tcs \<in> snd ` set m. rules_present h' tcs"
proof
  fix tcs assume t: "tcs \<in> snd ` set m"
  then have "set tcs \<subseteq> set (controllers m)" by (auto simp add: controllers_def)
  then have "\<forall>tc \<in> set tcs. tsc_mem h' tc = tsc_mem h tc"
    using assms(1,2) by (auto simp add: map_allocated_def heap_kept_def)
  then show "rules_present h' tcs"
    using assms(3) t rules_present_cong by blast
qed

lemma LoadRules_conforming:
  assumes conf: "registry_conforms (tcGenFuncMap st) K"
    and al: "map_allocated (mem st) (tcMap st)"
    and pres: "\<forall>tcs \<in> snd ` set (tcMap st). rules_present (mem st) tcs"
  shows "((\<exists>r. Some r \<in> set (elems rules) \<and> gen_panics K (rule_mem (mem st) r)) \<longrightarrow>
            (\<exists>e h'. LoadRules st rules = ((False, Some e, rules), st\<lparr>mem := h'\<rparr>) \<and>
                     heap_kept (mem st) h')) \<and>
         (\<not> (\<exists>r. Some r \<in> set (elems rules) \<and> gen_panics K (rule_mem (mem st) r)) \<longrightarrow>
            (\<exists>m f h' b. LoadRules st rules = ((b, None, f), st\<lparr>mem := h', tcMap := m\<rparr>) \<and>
                     build_inv K (mem st) (elems rules) (m, f, h') \<and>
                     rules_changed h' (tcMap st) m = Inr b))"
proof (intro conjI impI)
  assume "\<exists>r. Some r \<in> set (elems rules) \<and> gen_panics K (rule_mem (mem st) r)"
  then obtain e h' where "buildFlowMap (tcGenFuncMap st) (mem st) rules = Inl (e, h')"
    "heap_kept (mem st) h'"
    using buildFlowMap_conforming [OF conf, of rules "mem st"] by (auto split: if_splits)
  then show "\<exists>e h'. LoadRules st rules = ((False, Some e, rules), st\<lparr>mem := h'\<rparr>) \<and>
                     heap_kept (mem st) h'"
    by (auto simp add: LoadRules_def onRuleUpdate_def)
next
  assume "\<not> (\<exists>r. Some r \<in> set (elems rules) \<and> gen_panics K (rule_mem (mem st) r))"
  then obtain s' where s': "buildFlowMap (tcGenFuncMap st) (mem st) rules = Inr s'"
    "build_inv K (mem st) (elems rules) s'"
    using buildFlowMap_conforming [OF conf, of rules "mem st"] by (auto split: if_splits)
  obtain m f h' where s: "s' = (m, f, h')" by (cases s')
  have inv: "build_inv K (mem st) (elems rules) (m, f, h')" using s'(2) s by simp
  have hk: "heap_kept (mem st) h'" using inv by (simp add: build_inv_def)
  have p1: "\<forall>tcs \<in> snd ` set (tcMap st). rules_present h' tcs"
    by (rule present_kept [OF al hk pres])
  have p2: "\<forall>tcs \<in> snd ` set m. rules_present h' tcs"
    using build_inv_present [OF inv] by blast
  obtain b where b: "rules_changed h' (tcMap st) m = Inr b"
    using rules_changed_total [OF p1 p2] by blast
  have "LoadRules st rules = ((b, None, f), st\<lparr>mem := h', tcMap := m\<rparr>)"
    using s'(1) s b by (simp add: LoadRules_def onRuleUpdate_def)
  then show "\<exists>m f h' b. LoadRules st rules = ((b, None, f), st\<lparr>mem := h', tcMap := m\<rparr>) \<and>
                     build_inv K (mem st) (elems rules) (m, f, h') \<and>
                     rules_changed h' (tcMap st) m = Inr b"
    using inv b by blast
qed

lemma values_by_key:
  "distinct (map fst m) \<Longrightarrow>
   mset (map (rule_mem h) (rulesFrom h m))
     = (\<Sum>res \<in> set (map fst m). mset (tc_values h (tcs_of m res)))"
proof (induction m)
  case Nil
  then show ?case by (simp add: rulesFrom_def)
next
  case (Cons x m)
  obtain k v where x: "x = (k, v)" by (cases x)
  have k: "k \<notin> set (map fst m)" and d: "distinct (map fst m)"
    using Cons.prems x by simp_all
  have head: "tcs_of (x # m) k = v" using x by (simp add: tcs_of_def)
  have rest: "tcs_of (x # m) res = tcs_of m res" if "res \<in> set (map fst m)" for res
    using that k x by (auto simp add: tcs_of_def)
  have "mset (map (rule_mem h) (rulesFrom h (x # m)))
          = mset (tc_values h v) + mset (map (rule_mem h) (rulesFrom h m))"
    using x by (simp add: rulesFrom_def tc_values_def)
  also have "\<dots> = mset (tc_values h v) + (\<Sum>res \<in> set (map fst m). mset (tc_values h (tcs_of m res)))"
    using Cons.IH [OF d] by simp
  also have "(\<Sum>res \<in> set (map fst m). mset (tc_values h (tcs_of m res)))
               = (\<Sum>res \<in> set (map fst m). mset (tc_values h (tcs_of (x # m) res)))"
    using rest by (intro sum.cong) simp_all
  also have "mset (tc_values h v) + (\<Sum>res \<in> set (map fst m). mset (tc_values h (tcs_of (x # m) res)))
               = (\<Sum>res \<in> set (map fst (x # m)). mset (tc_values h (tcs_of (x # m) res)))"
    using k x head by simp
  finally show ?case .
qed

lemma rulesFrom_perm:
  assumes "mset T = mset m"
  shows "mset (rulesFrom h T) = mset (rulesFrom h m)"
proof -
  have "mset (rulesFrom h xs) = sum_mset (image_mset (\<lambda>e. mset (rules_of_tcs h (snd e))) (mset xs))" for xs
  proof (induction xs)
    case Nil
    then show ?case by (simp add: rulesFrom_def)
  next
    case (Cons x xs)
    have "rulesFrom h (x # xs) = rules_of_tcs h (snd x) @ rulesFrom h xs"
      by (cases x) (simp add: rulesFrom_def)
    then show ?case using Cons by simp
  qed
  then show ?thesis using assms by simp
qed

lemma controllers_perm: "mset T = mset m \<Longrightarrow> set (controllers T) = set (controllers m)"
  using mset_eq_setD [of T m] by (simp add: controllers_def)

lemma map_allocated_perm: "mset T = mset m \<Longrightarrow> map_allocated h T = map_allocated h m"
  using controllers_perm [of T m] by (simp add: map_allocated_def)

lemma build_inv_keys:
  assumes "build_inv K h0 pre (m, f, h)"
  shows "set (map fst m) = {res. accepted_values K h0 pre res \<noteq> []}"
proof -
  have dk: "distinct (map fst m)" and ne: "[] \<notin> snd ` set m"
    and vo: "\<And>res. tc_values h (tcs_of m res) = first_seen (accepted_values K h0 pre res)"
    using assms by (simp_all add: build_inv_def values_ok_def)
  have e: "first_seen xs = [] \<longleftrightarrow> xs = []" for xs :: "Rule list"
    using set_first_seen [of xs] by (metis set_empty)
  show ?thesis
  proof (intro set_eqI iffI)
    fix res assume "res \<in> set (map fst m)"
    then obtain tcs where t: "(res, tcs) \<in> set m" by auto
    then have tcs: "tcs_of m res = tcs" using dk by (simp add: tcs_of_member)
    have "tcs \<noteq> []" using t ne by force
    moreover have "rules_present h tcs"
      using build_inv_present [OF assms] t by force
    ultimately have "tc_values h tcs \<noteq> []" using length_tc_values by fastforce
    then show "res \<in> {res. accepted_values K h0 pre res \<noteq> []}"
      using vo [of res] tcs e by auto
  next
    fix res assume a: "res \<in> {res. accepted_values K h0 pre res \<noteq> []}"
    show "res \<in> set (map fst m)"
    proof (rule ccontr)
      assume "res \<notin> set (map fst m)"
      then have "tcs_of m res = []" by (simp add: tcs_of_absent)
      then have "first_seen (accepted_values K h0 pre res) = []"
        using vo [of res, symmetric] by simp
      then show False using e a by simp
    qed
  qed
qed

lemma accepted_values_cong:
  "rule_mem h' = rule_mem h \<Longrightarrow> accepted_values K h' rules res = accepted_values K h rules res"
  by (simp add: accepted_values_def)

lemma build_inv_allocated:
  assumes "build_inv K h0 pre (m, f, h)" "\<forall>r. Some r \<in> set pre \<longrightarrow> r < rule_next h0"
  shows "map_allocated h m"
  using assms
  by (fastforce simp add: build_inv_def new_controllers_def map_allocated_def heap_kept_def)


lemma deduplicated_alt:
  "deduplicated h m \<longleftrightarrow>
     distinct (map fst m) \<and>
     (\<forall>tcs \<in> snd ` set m. rules_present h tcs \<and> distinct (tc_values h tcs))"
  using no_equivalent_rules_distinct by (auto simp add: deduplicated_def)

lemma deduplicated_cong:
  assumes "rule_mem h' = rule_mem h" "\<forall>tc \<in> set (controllers m). tsc_mem h' tc = tsc_mem h tc"
  shows "deduplicated h' m = deduplicated h m"
proof -
  have "rules_present h' tcs = rules_present h tcs \<and> tc_values h' tcs = tc_values h tcs"
    if "tcs \<in> snd ` set m" for tcs
  proof -
    have "set tcs \<subseteq> set (controllers m)" using that by (auto simp add: controllers_def)
    then have "\<forall>tc \<in> set tcs. tsc_mem h' tc = tsc_mem h tc" using assms(2) by blast
    then show ?thesis using rules_present_cong tc_values_cong [OF assms(1)] by blast
  qed
  then show ?thesis unfolding deduplicated_alt by auto
qed

lemma deduplicated_perm:
  assumes "mset T = mset m"
  shows "deduplicated h T = deduplicated h m"
proof -
  have "mset (map fst T) = mset (map fst m)" using assms by (metis mset_map)
  then have "distinct (map fst T) = distinct (map fst m)" by (rule mset_eq_imp_distinct_iff)
  moreover have "set T = set m" using assms by (rule mset_eq_setD)
  ultimately show ?thesis by (simp add: deduplicated_def)
qed

lemma tcs_of_perm:
  assumes "mset T = mset m" "distinct (map fst m)"
  shows "tcs_of T res = tcs_of m res"
proof -
  have "mset (map fst T) = mset (map fst m)" using assms(1) by (metis mset_map)
  then have d: "distinct (map fst T)" using assms(2) mset_eq_imp_distinct_iff by blast
  have "set T = set m" using assms(1) by (rule mset_eq_setD)
  then have "map_of T = map_of m" using d assms(2) by (simp add: map_of_inject_set)
  then show ?thesis by (simp add: tcs_of_def)
qed

lemma kept_tc_values:
  assumes "map_allocated h m" "heap_kept h h'"
  shows "tc_values h' (tcs_of m res) = tc_values h (tcs_of m res)"
proof (rule tc_values_cong)
  show "rule_mem h' = rule_mem h" using assms(2) by (simp add: heap_kept_def)
  show "\<forall>tc \<in> set (tcs_of m res). tsc_mem h' tc = tsc_mem h tc"
    using assms tcs_of_controllers [of m res]
    by (auto simp add: map_allocated_def heap_kept_def)
qed

lemma kept_deduplicated:
  assumes "map_allocated h m" "heap_kept h h'"
  shows "deduplicated h' m = deduplicated h m"
proof (rule deduplicated_cong)
  show "rule_mem h' = rule_mem h" using assms(2) by (simp add: heap_kept_def)
  show "\<forall>tc \<in> set (controllers m). tsc_mem h' tc = tsc_mem h tc"
    using assms by (auto simp add: map_allocated_def heap_kept_def)
qed

lemma getRules_values:
  assumes "map_allocated (mem st) (tcMap st)"
  shows "GetRules_result st = Inr (mset (map (rule_mem (mem st)) (rulesFrom (mem st) (tcMap st))))"
  using GetRules_result_eq [OF assms] by (simp only: getRules_def)





end
